theory Spec2Isabelle
  imports Main "HOL-Library.Sublist"
begin

section \<open>Library functions used by src/ui/Console.cpp\<close>

text \<open>
  The console works on \<open>std::string\<close> values, modelled as \<open>string\<close>, and uses a few
  functions of the C and C++ standard libraries: \<open>isspace\<close>, \<open>std::string::find\<close>,
  \<open>std::string::find_first_not_of\<close>, the extraction of whitespace-delimited words from a
  \<open>std::istringstream\<close>, and \<open>std::sort\<close>.
\<close>

definition isspace :: "char \<Rightarrow> bool" where
  \<comment> \<open>\<open>isspace\<close> in the C locale: space, \<open>\t\<close>, \<open>\n\<close>, \<open>\v\<close>, \<open>\f\<close>, \<open>\r\<close>.\<close>
  "isspace c = (c = CHR '' '' \<or> c = CHR 0x09 \<or> c = CHR 0x0A \<or> c = CHR 0x0B
                \<or> c = CHR 0x0C \<or> c = CHR 0x0D)"

fun istream_words :: "string \<Rightarrow> string \<Rightarrow> string list" where
  \<comment> \<open>\<open>std::copy(std::istream_iterator<string>(iss), ..., back_inserter(tokens))\<close>: the stream
      is read character by character; \<open>cur\<close> holds the word being read, last character first.\<close>
  "istream_words cur [] = (if cur = [] then [] else [rev cur])"
| "istream_words cur (c # cs) =
     (if isspace c then (if cur = [] then istream_words [] cs else rev cur # istream_words [] cs)
      else istream_words (c # cur) cs)"

definition istream_tokens :: "string \<Rightarrow> string list" where
  "istream_tokens input = istream_words [] input"

fun string_find :: "string \<Rightarrow> string \<Rightarrow> nat option" where
  \<comment> \<open>\<open>s.find(t)\<close>: the position of the first occurrence of \<open>t\<close> in \<open>s\<close>. \<open>None\<close> stands for
      \<open>std::string::npos\<close>, the largest \<open>size_t\<close>, which no position of a string reaches.\<close>
  "string_find [] t = (if t = [] then Some 0 else None)"
| "string_find (c # cs) t =
     (if prefix t (c # cs) then Some 0 else map_option Suc (string_find cs t))"

definition find_first_not_of :: "string \<Rightarrow> char \<Rightarrow> nat option" where
  \<comment> \<open>\<open>s.find_first_not_of(ch)\<close>, \<open>None\<close> for \<open>npos\<close>.\<close>
  "find_first_not_of s ch =
     (if \<exists>c \<in> set s. c \<noteq> ch then Some (length (takeWhile (\<lambda>c. c = ch) s)) else None)"

definition size_t_sub :: "nat \<Rightarrow> nat \<Rightarrow> nat" where
  \<comment> \<open>Subtraction of two \<open>size_t\<close> values (64 bits): it wraps around.\<close>
  "size_t_sub a b = (a + 2 ^ 64 - b mod 2 ^ 64) mod 2 ^ 64"

section \<open>Functions of utils/Utils.h\<close>

definition ascii_upper_lower :: "(char \<times> char) list" where
  "ascii_upper_lower =
     [(CHR ''A'', CHR ''a''), (CHR ''B'', CHR ''b''), (CHR ''C'', CHR ''c''),
      (CHR ''D'', CHR ''d''), (CHR ''E'', CHR ''e''), (CHR ''F'', CHR ''f''),
      (CHR ''G'', CHR ''g''), (CHR ''H'', CHR ''h''), (CHR ''I'', CHR ''i''),
      (CHR ''J'', CHR ''j''), (CHR ''K'', CHR ''k''), (CHR ''L'', CHR ''l''),
      (CHR ''M'', CHR ''m''), (CHR ''N'', CHR ''n''), (CHR ''O'', CHR ''o''),
      (CHR ''P'', CHR ''p''), (CHR ''Q'', CHR ''q''), (CHR ''R'', CHR ''r''),
      (CHR ''S'', CHR ''s''), (CHR ''T'', CHR ''t''), (CHR ''U'', CHR ''u''),
      (CHR ''V'', CHR ''v''), (CHR ''W'', CHR ''w''), (CHR ''X'', CHR ''x''),
      (CHR ''Y'', CHR ''y''), (CHR ''Z'', CHR ''z'')]"

definition tolower :: "char \<Rightarrow> char" where
  "tolower c = (case map_of ascii_upper_lower c of Some l \<Rightarrow> l | None \<Rightarrow> c)"

definition lower :: "string \<Rightarrow> string" where
  \<comment> \<open>Modelled from the spec: \<open>Utils::lower\<close> is declared in utils/Utils.h, which is not among
      the sources. The spec asks for ASCII case folding ("ASCII-centric case folding is
      sufficient"); the function lowers its argument in place, the model returns the result.\<close>
  "lower s = map tolower s"

fun commonStartLength :: "string \<Rightarrow> string \<Rightarrow> nat" where
  \<comment> \<open>Modelled from the spec: \<open>Utils::commonStartLength\<close> is declared in utils/Utils.h, which
      is not among the sources. The spec calls it "the case-insensitive longest common prefix
      length" of its two arguments.\<close>
  "commonStartLength (x # xs) (y # ys) =
     (if tolower x = tolower y then Suc (commonStartLength xs ys) else 0)"
| "commonStartLength _ _ = 0"

fun findNameInGroups :: "string list list \<Rightarrow> string \<Rightarrow> string list" where
  \<comment> \<open>Modelled from the spec: \<open>Utils::findNameInGroups\<close> is declared in utils/Utils.h, which is
      not among the sources. The spec: a token matches when it "equals (case-sensitively, exact
      full-string match, not prefix/substring) any alias in any group returned"; the caller
      tests the returned group for emptiness, so the group found is returned and the empty
      group when there is none.\<close>
  "findNameInGroups [] name = []"
| "findNameInGroups (g # gs) name = (if name \<in> set g then g else findNameInGroups gs name)"

section \<open>The console's data\<close>

type_synonym CandidateListGenerator = "unit \<Rightarrow> string list list"

datatype callback_result =
  Returned string | Thrown_out_of_range | Thrown_invalid_argument

datatype Callback =
  ListCommands \<comment> \<open>the callback the constructor registers for "list"\<close>
| External "string list \<Rightarrow> callback_result"

record ConsoleCommand =
  generators :: "CandidateListGenerator list"
  callback :: Callback
  numFixTokens :: nat

record Console =
  m_Config_height :: int
  m_HistoryIndex :: int
  m_IsOpen :: bool
  m_History :: "string list"
  m_PendingLine :: string
  m_TypedLine :: string
  m_Output :: "string list"
  m_Commands :: "string list"
  m_CommandCallbacks :: "Callback list"
  m_Commands2 :: "ConsoleCommand list"

datatype exn =
  Out_of_range \<comment> \<open>\<open>std::out_of_range\<close> thrown by \<open>vector::at\<close>\<close>
| Undefined_behaviour \<comment> \<open>an unchecked \<open>operator[]\<close> out of range\<close>

section \<open>Console::determineCommand\<close>

fun fixTokensLoop ::
  "CandidateListGenerator list \<Rightarrow> string list \<Rightarrow> nat list \<Rightarrow> bool \<Rightarrow> exn + bool" where
  \<comment> \<open>The inner loop of \<open>determineCommand\<close> over \<open>tokenID\<close>. It has no \<open>break\<close>: every fixed
      position is evaluated. \<open>generators.at(tokenID)\<close> and \<open>tokens.at(tokenID)\<close> throw out of
      range.\<close>
  "fixTokensLoop gens tokens [] allStagesMatched = Inr allStagesMatched"
| "fixTokensLoop gens tokens (tokenID # rest) allStagesMatched =
     (if tokenID < length gens \<and> tokenID < length tokens then
        (let group = findNameInGroups ((gens ! tokenID) ()) (tokens ! tokenID)
         in fixTokensLoop gens tokens rest (if group = [] then False else allStagesMatched))
      else Inl Out_of_range)"

fun determineCommand_from :: "ConsoleCommand list \<Rightarrow> nat \<Rightarrow> string list \<Rightarrow> exn + int" where
  \<comment> \<open>The outer loop over \<open>commID\<close>, at the commands not visited yet. The result is
      \<open>static_cast<int>(commID)\<close>, the index itself for a registry of fewer than \<open>2^31\<close>
      commands.\<close>
  "determineCommand_from [] commID tokens = Inr (- 1)"
| "determineCommand_from (command # rest) commID tokens =
     (if numFixTokens command > length tokens then determineCommand_from rest (Suc commID) tokens
      else
        (case fixTokensLoop (generators command) tokens [0 ..< numFixTokens command] True of
           Inl e \<Rightarrow> Inl e
         | Inr allStagesMatched \<Rightarrow>
             if allStagesMatched then Inr (int commID)
             else determineCommand_from rest (Suc commID) tokens))"

definition determineCommand :: "ConsoleCommand list \<Rightarrow> string list \<Rightarrow> exn + int" where
  "determineCommand commands2 tokens = determineCommand_from commands2 0 tokens"

section \<open>The constructor and the "list" command\<close>

fun listGroups :: "string list list \<Rightarrow> bool \<Rightarrow> exn + string" where
  \<comment> \<open>The loop over \<open>groupIt\<close>; \<open>atBegin\<close> is \<open>groupIt == groups.begin()\<close>. Only the first
      alias of a group is printed: \<open>(*groupIt)[0]\<close>, unchecked.\<close>
  "listGroups [] atBegin = Inr []"
| "listGroups (g # gs) atBegin =
     (case g of
        [] \<Rightarrow> Inl Undefined_behaviour
      | a # _ \<Rightarrow>
          (case listGroups gs False of
             Inl e \<Rightarrow> Inl e
           | Inr s \<Rightarrow> Inr ((if atBegin then [] else ''/'') @ a @ s)))"

fun listGenerators :: "CandidateListGenerator list \<Rightarrow> nat \<Rightarrow> nat \<Rightarrow> exn + string" where
  "listGenerators [] index fixTokens = Inr []"
| "listGenerators (generator # rest) index fixTokens =
     (if index \<ge> fixTokens then Inr []
      else
        (case listGroups (generator ()) True of
           Inl e \<Rightarrow> Inl e
         | Inr s \<Rightarrow>
             (case listGenerators rest (Suc index) fixTokens of
                Inl e \<Rightarrow> Inl e
              | Inr s' \<Rightarrow> Inr ((if index \<noteq> 0 then '' '' else []) @ s @ s'))))"

fun listCallback :: "ConsoleCommand list \<Rightarrow> string list \<Rightarrow> string list \<times> (exn + string)" where
  \<comment> \<open>The callback of "list": one output line per command; the output so far is threaded
      through (\<open>outputAdd\<close> is \<open>push_front\<close>).\<close>
  "listCallback [] out = (out, Inr [])"
| "listCallback (c # cs) out =
     (case listGenerators (generators c) 0 (numFixTokens c) of
        Inl e \<Rightarrow> (out, Inl e)
      | Inr line \<Rightarrow> listCallback cs (line # out))"

definition outputAdd :: "string \<Rightarrow> Console \<Rightarrow> Console" where
  "outputAdd msg c = c\<lparr>m_Output := msg # m_Output c\<rparr>"

definition Console_new :: Console where
  \<comment> \<open>\<open>Console::Console()\<close>; the members it does not mention are default-constructed.\<close>
  "Console_new =
     \<lparr>m_Config_height = 10, m_HistoryIndex = 0, m_IsOpen = False, m_History = [],
      m_PendingLine = [], m_TypedLine = [],
      m_Output = ['' ----------- REGoth Console -----------''],
      m_Commands = [], m_CommandCallbacks = [],
      m_Commands2 =
        [\<lparr>generators = [\<lambda>_. [[''list'']]], callback = ListCommands, numFixTokens = 1\<rparr>]\<rparr>"

section \<open>Console::submitCommand\<close>

definition invoke :: "Callback \<Rightarrow> string list \<Rightarrow> Console \<Rightarrow> Console \<times> (exn + callback_result)" where
  "invoke cb args c =
     (case cb of
        ListCommands \<Rightarrow>
          (case listCallback (m_Commands2 c) (m_Output c) of
             (out, Inl e) \<Rightarrow> (c\<lparr>m_Output := out\<rparr>, Inl e)
           | (out, Inr s) \<Rightarrow> (c\<lparr>m_Output := out\<rparr>, Inr (Returned s)))
      | External f \<Rightarrow> (c, Inr (f args)))"

definition caught :: "callback_result \<Rightarrow> string" where
  \<comment> \<open>The two \<open>catch\<close> clauses around the call of a callback.\<close>
  "caught r =
     (case r of
        Returned s \<Rightarrow> s
      | Thrown_out_of_range \<Rightarrow> ''error: argument out of range''
      | Thrown_invalid_argument \<Rightarrow> ''error: invalid argument'')"

definition dispatch :: "Callback option \<Rightarrow> string list \<Rightarrow> Console \<Rightarrow> Console \<times> (exn + string)" where
  \<comment> \<open>\<open>try { result = callbacks.at(i)(args); } catch ...; outputAdd(result); return result;\<close>
      with \<open>None\<close> for an index that \<open>at\<close> refuses: its \<open>std::out_of_range\<close> is thrown inside
      the \<open>try\<close> block and caught there.\<close>
  "dispatch cbo args c =
     (case cbo of
        None \<Rightarrow>
          (let result = caught Thrown_out_of_range in (outputAdd result c, Inr result))
      | Some cb \<Rightarrow>
          (case invoke cb args c of
             (c', Inl e) \<Rightarrow> (c', Inl e)
           | (c', Inr r) \<Rightarrow> (let result = caught r in (outputAdd result c', Inr result))))"

definition vector_at :: "'a list \<Rightarrow> int \<Rightarrow> 'a option" where
  "vector_at xs i = (if 0 \<le> i \<and> i < int (length xs) then Some (xs ! nat i) else None)"

fun legacyLoop :: "string list \<Rightarrow> string \<Rightarrow> nat \<Rightarrow> nat \<times> int \<Rightarrow> nat \<times> int" where
  \<comment> \<open>The loop of the "old command system" over \<open>m_Commands\<close>, from index \<open>i\<close> on; the state is
      \<open>(bestMatchSize, bestMatchIndex)\<close>.\<close>
  "legacyLoop [] line i st = st"
| "legacyLoop (cand # rest) line i (bestMatchSize, bestMatchIndex) =
     (if length cand < bestMatchSize then legacyLoop rest line (Suc i) (bestMatchSize, bestMatchIndex)
      else if length line = length cand \<or> (length line > length cand \<and> line ! length cand = CHR '' '')
      then
        (if cand = take (length cand) line then legacyLoop rest line (Suc i) (length cand, int i)
         else legacyLoop rest line (Suc i) (bestMatchSize, bestMatchIndex))
      else legacyLoop rest line (Suc i) (bestMatchSize, bestMatchIndex))"

definition submitCommand ::
  "(string \<Rightarrow> char \<Rightarrow> string list) \<Rightarrow> Console \<Rightarrow> string \<Rightarrow> Console \<times> (exn + string)" where
  \<comment> \<open>\<open>split\<close> stands for \<open>Utils::split\<close> of ZenLib, which is not among the sources. The result
      is the console after the call and the string returned, or the exception that leaves
      the call.\<close>
  "submitCommand split c line =
     (let c1 = (if find_first_not_of line CHR '' '' \<noteq> None
                   \<and> (m_History c = [] \<or> last (m_History c) \<noteq> line)
                then c\<lparr>m_History := m_History c @ [line]\<rparr> else c);
          c2 = c1\<lparr>m_HistoryIndex := - 1, m_PendingLine := []\<rparr>
      in if line = [] then (c2, Inr [])
         else
           (let commandAutoCompleted = line;
                c3 = outputAdd ('' >> '' @ commandAutoCompleted) c2;
                args = split commandAutoCompleted CHR '' ''
            in case determineCommand (m_Commands2 c3) args of
                 Inl e \<Rightarrow> (c3, Inl e)
               | Inr commID \<Rightarrow>
                   if commID \<noteq> - 1
                   then dispatch (map_option callback (vector_at (m_Commands2 c3) commID)) args c3
                   else
                     (case legacyLoop (m_Commands c3) commandAutoCompleted 0 (0, - 1) of
                        (bestMatchSize, bestMatchIndex) \<Rightarrow>
                          if bestMatchIndex \<ge> 0
                          then dispatch (vector_at (m_CommandCallbacks c3) bestMatchIndex) args c3
                          else (outputAdd '' -- Command not found -- '' c3, Inr ''NOTFOUND''))))"

definition registerCommand :: "string \<Rightarrow> Callback \<Rightarrow> Console \<Rightarrow> Console" where
  "registerCommand command cb c =
     c\<lparr>m_Commands := m_Commands c @ [command], m_CommandCallbacks := m_CommandCallbacks c @ [cb]\<rparr>"

definition registerCommand2 ::
  "CandidateListGenerator list \<Rightarrow> nat \<Rightarrow> Callback \<Rightarrow> Console \<Rightarrow> Console" where
  "registerCommand2 gens fixTokens cb c =
     c\<lparr>m_Commands2 := m_Commands2 c @
        [\<lparr>generators = gens, callback = cb, numFixTokens = fixTokens\<rparr>]\<rparr>"

section \<open>Console::autoComplete\<close>

record MatchInfo =
  pos :: "nat option"
  notMatchingCharCount :: nat
  commandID :: nat
  groupID :: nat
  candidate :: string
  candidateLowered :: string

definition size_t_less :: "nat option \<Rightarrow> nat option \<Rightarrow> bool" where
  \<comment> \<open>\<open><\<close> on positions: \<open>npos\<close> (\<open>None\<close>) is greater than every position.\<close>
  "size_t_less a b =
     (case (a, b) of
        (Some x, Some y) \<Rightarrow> x < y
      | (Some x, None) \<Rightarrow> True
      | (None, _) \<Rightarrow> False)"

definition MatchInfo_compare :: "MatchInfo \<Rightarrow> MatchInfo \<Rightarrow> bool" where
  "MatchInfo_compare a b =
     (if pos a \<noteq> pos b then size_t_less (pos a) (pos b)
      else notMatchingCharCount a < notMatchingCharCount b)"

definition std_sort_contract :: "(MatchInfo list \<Rightarrow> MatchInfo list) \<Rightarrow> bool" where
  \<comment> \<open>\<open>std::sort(first, last, MatchInfo::compare)\<close> as a function from the range before the
      call to the range after it. The standard fixes the result up to the order of the elements
      that compare equal: it is a permutation of the range in which no element is less than
      an element before it. The functions below that sort take the sorting function as their
      parameter \<open>std_sort\<close>.\<close>
  "std_sort_contract std_sort =
     (\<forall>xs. (\<forall>x. count_list (std_sort xs) x = count_list xs x) \<and>
           sorted_wrt (\<lambda>a b. \<not> MatchInfo_compare b a) (std_sort xs))"

definition makeMatchInfo :: "nat \<Rightarrow> nat \<Rightarrow> string \<Rightarrow> string \<Rightarrow> MatchInfo" where
  "makeMatchInfo cmdID grpID tok cand =
     (let lowered = lower cand
      in \<lparr>pos = string_find lowered tok,
          notMatchingCharCount = size_t_sub (length lowered) (length tok),
          commandID = cmdID, groupID = grpID, candidate = cand, candidateLowered = lowered\<rparr>)"

fun groupsLoop ::
  "(MatchInfo list \<Rightarrow> MatchInfo list) \<Rightarrow> nat \<Rightarrow> string \<Rightarrow> string list list \<Rightarrow> nat
     \<Rightarrow> MatchInfo list \<times> MatchInfo list \<Rightarrow> MatchInfo list \<times> MatchInfo list" where
  \<comment> \<open>The loop over \<open>groupID\<close>; the state is \<open>(matchInfosStartsWith, matchInfosInMiddle)\<close>.
      \<open>groupInfos\<close> has one entry per alias of a group that is not empty, and sorting keeps
      its size, so \<open>groupInfos.at(0)\<close> is the head of the sorted list.\<close>
  "groupsLoop std_sort cmdID tok [] grpID acc = acc"
| "groupsLoop std_sort cmdID tok (aliasGroup # rest) grpID (startsWith, inMiddle) =
     (if aliasGroup = [] then groupsLoop std_sort cmdID tok rest (Suc grpID) (startsWith, inMiddle)
      else
        (let groupInfos = map (makeMatchInfo cmdID grpID tok) aliasGroup;
             bestMatch = hd (std_sort groupInfos)
         in if pos bestMatch = Some 0
            then groupsLoop std_sort cmdID tok rest (Suc grpID) (startsWith @ [bestMatch], inMiddle)
            else if pos bestMatch \<noteq> None
            then groupsLoop std_sort cmdID tok rest (Suc grpID) (startsWith, inMiddle @ [bestMatch])
            else groupsLoop std_sort cmdID tok rest (Suc grpID) (startsWith, inMiddle)))"

fun cmdLoop ::
  "(MatchInfo list \<Rightarrow> MatchInfo list) \<Rightarrow> bool \<Rightarrow> nat \<Rightarrow> string \<Rightarrow> ConsoleCommand list \<Rightarrow> nat
     \<Rightarrow> bool list \<times> MatchInfo list \<times> MatchInfo list \<times> string list list list
     \<Rightarrow> exn + bool list \<times> MatchInfo list \<times> MatchInfo list \<times> string list list list" where
  \<comment> \<open>The loop over \<open>cmdID\<close>, at the commands not visited yet; the state is
      \<open>(commandIsAlive, matchInfosStartsWith, matchInfosInMiddle, allGroups)\<close>.
      \<open>generators[tokenID]\<close> is unchecked.\<close>
  "cmdLoop std_sort limitToFixed tokenID tok [] cmdID st = Inr st"
| "cmdLoop std_sort limitToFixed tokenID tok (command # rest) cmdID (alive, startsWith, inMiddle, allGroups) =
     (let cmdEnd = (if limitToFixed then numFixTokens command else length (generators command))
      in if alive ! cmdID \<and> tokenID < cmdEnd then
           (if tokenID < length (generators command) then
              (let groups = (generators command ! tokenID) ();
                   (startsWith', inMiddle') = groupsLoop std_sort cmdID tok groups 0 (startsWith, inMiddle)
               in cmdLoop std_sort limitToFixed tokenID tok rest (Suc cmdID)
                    (alive[cmdID := False], startsWith', inMiddle', allGroups[cmdID := groups]))
            else Inl Undefined_behaviour)
         else cmdLoop std_sort limitToFixed tokenID tok rest (Suc cmdID)
                (alive, startsWith, inMiddle, allGroups))"

fun bucketScan :: "string \<Rightarrow> MatchInfo list \<Rightarrow> bool list \<times> nat \<times> nat \<Rightarrow> bool list \<times> nat \<times> nat" where
  \<comment> \<open>The loop over the entries of the bucket taken; the state is
      \<open>(commandIsAlive, commonLength, longestCandidateLen)\<close>.\<close>
  "bucketScan reference [] st = st"
| "bucketScan reference (matchInfo # rest) (alive, commonLength, longestCandidateLen) =
     bucketScan reference rest
       (alive[commandID matchInfo := True],
        min (commonStartLength reference (candidateLowered matchInfo)) commonLength,
        max longestCandidateLen (length (candidateLowered matchInfo)))"

definition useBucket ::
  "MatchInfo list \<Rightarrow> nat \<Rightarrow> bool list \<times> (string \<times> bool) list \<Rightarrow> bool list \<times> (string \<times> bool) list" where
  \<comment> \<open>The body of the loop over the two buckets, for a bucket that is not empty.\<close>
  "useBucket matchInfos tokenID st =
     (case st of (alive, newTokens) \<Rightarrow>
        (let reference = candidateLowered (hd matchInfos)
         in case bucketScan reference matchInfos (alive, length reference, length reference) of
              (alive', commonLength, longestCandidateLen) \<Rightarrow>
                if commonLength \<noteq> 0 then
                  (let tokenNew = take commonLength (candidate (hd matchInfos));
                       thereIsNoLongerCandidate = (longestCandidateLen = length tokenNew)
                   in (alive', newTokens[tokenID := (tokenNew, thereIsNoLongerCandidate)]))
                else (alive', newTokens)))"

fun bucketsLoop ::
  "MatchInfo list list \<Rightarrow> nat \<Rightarrow> bool list \<times> (string \<times> bool) list
     \<Rightarrow> bool list \<times> (string \<times> bool) list" where
  \<comment> \<open>\<open>for (auto& matchInfos : {matchInfosStartsWith, matchInfosInMiddle})\<close>: an empty bucket
      is skipped (\<open>continue\<close>), the first one that is not empty is used and ends the loop
      (\<open>break\<close>).\<close>
  "bucketsLoop [] tokenID st = st"
| "bucketsLoop (matchInfos # rest) tokenID st =
     (if matchInfos = [] then bucketsLoop rest tokenID st else useBucket matchInfos tokenID st)"

definition setw_left :: "nat \<Rightarrow> string \<Rightarrow> string" where
  \<comment> \<open>\<open>ss << std::left << std::setw(w) << alias\<close>\<close>
  "setw_left w s = s @ replicate (w - length s) CHR '' ''"

definition suggestions ::
  "(MatchInfo list \<Rightarrow> MatchInfo list) \<Rightarrow> string list list list \<Rightarrow> MatchInfo list \<Rightarrow> MatchInfo list \<Rightarrow> string list" where
  \<comment> \<open>The lines written to \<open>LogInfo()\<close> for one token.\<close>
  "suggestions std_sort allGroups startsWith inMiddle =
     ''suggestions:'' #
     concat (map (\<lambda>matchInfos.
                    map (\<lambda>m. concat (map (setw_left 40) (allGroups ! commandID m ! groupID m)))
                      (std_sort matchInfos))
               [startsWith, inMiddle])"

fun tokenLoop ::
  "(MatchInfo list \<Rightarrow> MatchInfo list) \<Rightarrow> ConsoleCommand list \<Rightarrow> bool \<Rightarrow> bool \<Rightarrow> string list \<Rightarrow> nat
     \<Rightarrow> bool list \<times> (string \<times> bool) list \<times> string list
     \<Rightarrow> exn + bool list \<times> (string \<times> bool) list \<times> string list" where
  \<comment> \<open>The loop over \<open>tokenID\<close>, at the (lowered) tokens not visited yet; the state is
      \<open>(commandIsAlive, newTokens, lines logged)\<close>.\<close>
  "tokenLoop std_sort cmds limitToFixed showSuggestions [] tokenID st = Inr st"
| "tokenLoop std_sort cmds limitToFixed showSuggestions (tok # rest) tokenID (alive, newTokens, logged) =
     (case cmdLoop std_sort limitToFixed tokenID tok cmds 0 (alive, [], [], replicate (length cmds) []) of
        Inl e \<Rightarrow> Inl e
      | Inr (alive1, startsWith, inMiddle, allGroups) \<Rightarrow>
          (case bucketsLoop [startsWith, inMiddle] tokenID (alive1, newTokens) of
             (alive2, newTokens2) \<Rightarrow>
               tokenLoop std_sort cmds limitToFixed showSuggestions rest (Suc tokenID)
                 (alive2, newTokens2,
                  if showSuggestions then logged @ suggestions std_sort allGroups startsWith inMiddle
                  else logged)))"

definition completeTokens ::
  "(MatchInfo list \<Rightarrow> MatchInfo list) \<Rightarrow> ConsoleCommand list \<Rightarrow> bool \<Rightarrow> bool \<Rightarrow> string list
     \<Rightarrow> exn + bool list \<times> (string \<times> bool) list \<times> string list" where
  \<comment> \<open>\<open>autoComplete\<close> from the tokens of the input to \<open>newTokens\<close>.\<close>
  "completeTokens std_sort cmds limitToFixed showSuggestions tokens =
     tokenLoop std_sort cmds limitToFixed showSuggestions (map lower tokens) 0
       (replicate (length cmds) True, map (\<lambda>t. (t, False)) tokens, [])"

fun tokenConCat :: "(string \<times> bool) list \<Rightarrow> bool \<Rightarrow> string" where
  \<comment> \<open>The loop that writes \<open>tokenConCat\<close>; \<open>endsInSpace\<close> is \<open>isspace(input.back())\<close>.\<close>
  "tokenConCat [] endsInSpace = []"
| "tokenConCat ((t, noLongerMatch) # rest) endsInSpace =
     t @ (if rest \<noteq> [] \<or> endsInSpace \<or> noLongerMatch then '' '' else []) @
     tokenConCat rest endsInSpace"

definition autoComplete ::
  "(MatchInfo list \<Rightarrow> MatchInfo list) \<Rightarrow> ConsoleCommand list \<Rightarrow> string \<Rightarrow> bool \<Rightarrow> bool \<Rightarrow> bool \<Rightarrow> exn + string \<times> string list" where
  \<comment> \<open>The result is the input line after the call and the lines logged.\<close>
  "autoComplete std_sort cmds input limitToFixed showSuggestions overwriteInput =
     (let tokens = istream_tokens input
      in if tokens = [] then Inr (input, [])
         else
           (case completeTokens std_sort cmds limitToFixed showSuggestions tokens of
              Inl e \<Rightarrow> Inl e
            | Inr (alive, newTokens, logged) \<Rightarrow>
                Inr (if overwriteInput then tokenConCat newTokens (isspace (last input))
                     else input, logged)))"

section \<open>Console::onKeyDown\<close>

definition GLFW_KEY_ESCAPE :: int where "GLFW_KEY_ESCAPE = 256"
definition GLFW_KEY_ENTER :: int where "GLFW_KEY_ENTER = 257"
definition GLFW_KEY_TAB :: int where "GLFW_KEY_TAB = 258"
definition GLFW_KEY_BACKSPACE :: int where "GLFW_KEY_BACKSPACE = 259"
definition GLFW_KEY_DOWN :: int where "GLFW_KEY_DOWN = 264"
definition GLFW_KEY_UP :: int where "GLFW_KEY_UP = 265"
definition GLFW_KEY_F10 :: int where "GLFW_KEY_F10 = 299"

definition historyLine :: "Console \<Rightarrow> Console \<times> exn option" where
  \<comment> \<open>\<open>m_TypedLine = m_History.at(m_History.size() - m_HistoryIndex - 1)\<close>: the index is
      computed in \<open>size_t\<close>.\<close>
  "historyLine c =
     (let i = (int (length (m_History c)) - m_HistoryIndex c - 1) mod 2 ^ 64
      in case vector_at (m_History c) i of
           None \<Rightarrow> (c, Some Out_of_range)
         | Some l \<Rightarrow> (c\<lparr>m_TypedLine := l\<rparr>, None))"

definition onKeyDown ::
  "(string \<Rightarrow> char \<Rightarrow> string list) \<Rightarrow> (MatchInfo list \<Rightarrow> MatchInfo list) \<Rightarrow> Console \<Rightarrow> int \<Rightarrow> Console \<times> exn option" where
  \<comment> \<open>The console after the call, and the exception that leaves it if one does.
      \<open>setOpen\<close> and \<open>isOpen\<close> (Console.h) write and read \<open>m_IsOpen\<close>.\<close>
  "onKeyDown split std_sort c glfwKey =
     (let c1 = (if glfwKey = GLFW_KEY_ESCAPE then c\<lparr>m_IsOpen := False\<rparr> else c);
          c2 = (if glfwKey = GLFW_KEY_F10 then c1\<lparr>m_IsOpen := \<not> m_IsOpen c1\<rparr> else c1)
      in if glfwKey = GLFW_KEY_UP then
           (let historySize = int (length (m_History c2))
            in if historySize > m_HistoryIndex c2 + 1 then
                 (let c3 = (if m_HistoryIndex c2 < 0 then c2\<lparr>m_PendingLine := m_TypedLine c2\<rparr>
                            else c2)
                  in historyLine (c3\<lparr>m_HistoryIndex := m_HistoryIndex c3 + 1\<rparr>))
               else (c2, None))
         else if glfwKey = GLFW_KEY_DOWN then
           (if m_HistoryIndex c2 \<ge> 0 then
              (let c3 = c2\<lparr>m_HistoryIndex := m_HistoryIndex c2 - 1\<rparr>
               in if m_HistoryIndex c3 < 0 then (c3\<lparr>m_TypedLine := m_PendingLine c3\<rparr>, None)
                  else historyLine c3)
            else (c2, None))
         else if glfwKey = GLFW_KEY_BACKSPACE then
           (if length (m_TypedLine c2) \<ge> 1 then (c2\<lparr>m_TypedLine := butlast (m_TypedLine c2)\<rparr>, None)
            else (c2, None))
         else if glfwKey = GLFW_KEY_ENTER then
           (case submitCommand split c2 (m_TypedLine c2) of
              (c3, Inl e) \<Rightarrow> (c3, Some e)
            | (c3, Inr r) \<Rightarrow> (c3\<lparr>m_TypedLine := []\<rparr>, None))
         else if glfwKey = GLFW_KEY_TAB then
           (case autoComplete std_sort (m_Commands2 c2) (m_TypedLine c2) False True True of
              Inl e \<Rightarrow> (c2, Some e)
            | Inr (line, logged) \<Rightarrow> (c2\<lparr>m_TypedLine := line\<rparr>, None))
         else (c2, None))"

definition onTextInput :: "string \<Rightarrow> Console \<Rightarrow> Console" where
  "onTextInput t c = c\<lparr>m_TypedLine := m_TypedLine c @ t\<rparr>"


section \<open>Notions of the specification, and sample data\<close>

definition fixedTokensMatch :: "ConsoleCommand \<Rightarrow> string list \<Rightarrow> bool" where
  \<comment> \<open>The specification's matching of a command against a token sequence \<open>T\<close>: the command
      has a token of \<open>T\<close> and a generator at each of its fixed positions, and the token there
      equals some alias in some group the generator returns.\<close>
  "fixedTokensMatch c T =
     (numFixTokens c \<le> length T \<and> numFixTokens c \<le> length (generators c) \<and>
      (\<forall>i < numFixTokens c. \<exists>g \<in> set ((generators c ! i) ()). T ! i \<in> set g))"

definition sample_commands :: "ConsoleCommand list" where
  \<comment> \<open>"list", "load"/"ld" with a second token, and a second command named "ld".\<close>
  "sample_commands =
     [\<lparr>generators = [\<lambda>_. [[''list'']]], callback = ListCommands, numFixTokens = 1\<rparr>,
      \<lparr>generators = [\<lambda>_. [[''load'', ''ld'']], \<lambda>_. [[''game''], [''level'']]],
       callback = External (\<lambda>args. Returned ''loaded''), numFixTokens = 1\<rparr>,
      \<lparr>generators = [\<lambda>_. [[''ld'']]],
       callback = External (\<lambda>args. Returned ''linked''), numFixTokens = 1\<rparr>]"

definition catch_all_commands :: "ConsoleCommand list" where
  \<comment> \<open>"list", and a command registered with no fixed token.\<close>
  "catch_all_commands =
     [\<lparr>generators = [\<lambda>_. [[''list'']]], callback = ListCommands, numFixTokens = 1\<rparr>,
      \<lparr>generators = [], callback = External (\<lambda>args. Returned ''ok''), numFixTokens = 0\<rparr>]"

fun getline_words :: "string \<Rightarrow> string \<Rightarrow> char \<Rightarrow> string list" where
  "getline_words cur [] delim = (if cur = [] then [] else [rev cur])"
| "getline_words cur (c # cs) delim =
     (if c = delim then rev cur # getline_words [] cs delim else getline_words (c # cur) cs delim)"

definition getline_split :: "string \<Rightarrow> char \<Rightarrow> string list" where
  \<comment> \<open>A splitting function to run the samples with: the items that a loop of
      \<open>std::getline(stream, item, delim)\<close> reads. The theorems on \<open>submitCommand\<close> hold for
      every splitting function.\<close>
  "getline_split s delim = getline_words [] s delim"

definition spaces_only :: "string \<Rightarrow> bool" where
  \<comment> \<open>The empty line, and a line of space characters only.\<close>
  "spaces_only s = (\<forall>c \<in> set s. c = CHR '' '')"

definition history_ok :: "string list \<Rightarrow> bool" where
  "history_ok h = ((\<forall>l \<in> set h. \<not> spaces_only l) \<and> distinct_adj h)"

fun submitAll :: "(string \<Rightarrow> char \<Rightarrow> string list) \<Rightarrow> Console \<Rightarrow> string list \<Rightarrow> Console" where
  \<comment> \<open>A sequence of calls of \<open>submitCommand\<close>; the console is kept whether a call returns or
      throws.\<close>
  "submitAll split c [] = c"
| "submitAll split c (l # ls) = submitAll split (fst (submitCommand split c l)) ls"

definition index_in_range :: "Console \<Rightarrow> bool" where
  \<comment> \<open>The navigation index lies in \<open>[-1, length - 1]\<close>.\<close>
  "index_in_range c =
     (- 1 \<le> m_HistoryIndex c \<and> m_HistoryIndex c \<le> int (length (m_History c)) - 1)"

definition legacyMatches :: "string \<Rightarrow> string \<Rightarrow> bool" where
  \<comment> \<open>A legacy command string is a prefix of the input that ends on a token boundary: the
      input ends there too, or goes on with a space.\<close>
  "legacyMatches cand line =
     (prefix cand line \<and> (length line = length cand \<or> line ! length cand = CHR '' ''))"

definition two_saves :: Console where
  \<comment> \<open>The legacy command "save" registered twice, with two callbacks.\<close>
  "two_saves =
     registerCommand ''save'' (External (\<lambda>args. Returned ''second''))
       (registerCommand ''save'' (External (\<lambda>args. Returned ''first'')) Console_new)"

definition legacy_console :: Console where
  \<comment> \<open>Four legacy commands, "save all" among them twice; each callback returns its number.\<close>
  "legacy_console =
     registerCommand ''save all'' (External (\<lambda>args. Returned ''4''))
       (registerCommand ''load'' (External (\<lambda>args. Returned ''3''))
         (registerCommand ''save all'' (External (\<lambda>args. Returned ''2''))
           (registerCommand ''save'' (External (\<lambda>args. Returned ''1'')) Console_new)))"

definition legacy_inv :: "string list \<Rightarrow> string \<Rightarrow> nat \<times> int \<Rightarrow> bool" where
  \<comment> \<open>The invariant of the loop of the old command system, after the candidates \<open>xs\<close>: the
      state \<open>(bestMatchSize, bestMatchIndex)\<close> is the initial one and no candidate matched, or
      it names the last of the longest candidates that matched.\<close>
  "legacy_inv xs line st =
     (case st of (bs, bi) \<Rightarrow>
        (bi = - 1 \<and> bs = 0 \<and> (\<forall>j < length xs. \<not> legacyMatches (xs ! j) line)) \<or>
        (\<exists>k < length xs. bi = int k \<and> bs = length (xs ! k) \<and> legacyMatches (xs ! k) line \<and>
           (\<forall>j < length xs. legacyMatches (xs ! j) line \<longrightarrow>
              length (xs ! j) \<le> bs \<and> (length (xs ! j) = bs \<longrightarrow> j \<le> k))))"

fun insertMatchInfo :: "MatchInfo \<Rightarrow> MatchInfo list \<Rightarrow> MatchInfo list" where
  "insertMatchInfo x [] = [x]"
| "insertMatchInfo x (y # ys) =
     (if MatchInfo_compare y x then y # insertMatchInfo x ys else x # y # ys)"

definition insertion_sort :: "MatchInfo list \<Rightarrow> MatchInfo list" where
  \<comment> \<open>A sorting function to run the samples with. It meets \<open>std_sort_contract\<close>; the theorems
      on the completion hold for every sorting function that does.\<close>
  "insertion_sort xs = foldr insertMatchInfo xs []"

fun groupBests ::
  "(MatchInfo list \<Rightarrow> MatchInfo list) \<Rightarrow> nat \<Rightarrow> string \<Rightarrow> string list list \<Rightarrow> nat \<Rightarrow> MatchInfo list" where
  \<comment> \<open>The best matches of the groups of one command that are not empty, in the order of the
      groups: what the loop over \<open>groupID\<close> sorts into the two buckets.\<close>
  "groupBests std_sort cmdID tok [] grpID = []"
| "groupBests std_sort cmdID tok (aliasGroup # rest) grpID =
     (if aliasGroup = [] then groupBests std_sort cmdID tok rest (Suc grpID)
      else hd (std_sort (map (makeMatchInfo cmdID grpID tok) aliasGroup)) #
           groupBests std_sort cmdID tok rest (Suc grpID))"

fun cmdBests ::
  "(MatchInfo list \<Rightarrow> MatchInfo list) \<Rightarrow> bool \<Rightarrow> nat \<Rightarrow> string \<Rightarrow> ConsoleCommand list \<Rightarrow> nat \<Rightarrow> bool list \<times> string list list list
     \<Rightarrow> exn + bool list \<times> MatchInfo list \<times> string list list list" where
  \<comment> \<open>The loop over \<open>cmdID\<close> with the best matches of all groups visited in one list, before
      they are sorted into the buckets.\<close>
  "cmdBests std_sort limitToFixed tokenID tok [] cmdID (alive, allGroups) = Inr (alive, [], allGroups)"
| "cmdBests std_sort limitToFixed tokenID tok (command # rest) cmdID (alive, allGroups) =
     (let cmdEnd = (if limitToFixed then numFixTokens command else length (generators command))
      in if alive ! cmdID \<and> tokenID < cmdEnd then
           (if tokenID < length (generators command) then
              (let groups = (generators command ! tokenID) ()
               in case cmdBests std_sort limitToFixed tokenID tok rest (Suc cmdID)
                         (alive[cmdID := False], allGroups[cmdID := groups]) of
                    Inl e \<Rightarrow> Inl e
                  | Inr (alive', bests, allGroups') \<Rightarrow>
                      Inr (alive', groupBests std_sort cmdID tok groups 0 @ bests, allGroups'))
            else Inl Undefined_behaviour)
         else cmdBests std_sort limitToFixed tokenID tok rest (Suc cmdID) (alive, allGroups))"

definition MatchInfo_core :: "bool \<Rightarrow> MatchInfo \<Rightarrow> nat \<times> string \<times> string" where
  \<comment> \<open>What the completion reads of an entry of the bucket taken; with \<open>exact\<close> off, the
      candidate up to the case of its letters only.\<close>
  "MatchInfo_core exact m =
     (commandID m, (if exact then candidate m else []), candidateLowered m)"

definition arities_ok :: "ConsoleCommand list \<Rightarrow> bool" where
  \<comment> \<open>The invariant of the data model: no command has more fixed tokens than generators.\<close>
  "arities_ok cmds = (\<forall>c \<in> set cmds. numFixTokens c \<le> length (generators c))"

definition upload_commands :: "ConsoleCommand list" where
  \<comment> \<open>One command with the groups "load" and "upload" at its first position.\<close>
  "upload_commands =
     [\<lparr>generators = [\<lambda>_. [[''load''], [''upload'']]],
       callback = External (\<lambda>args. Returned ''ok''), numFixTokens = 1\<rparr>]"

definition xab_commands :: "ConsoleCommand list" where
  \<comment> \<open>One command with the groups "xab" and "xcab" at its first position.\<close>
  "xab_commands =
     [\<lparr>generators = [\<lambda>_. [[''xab''], [''xcab'']]],
       callback = External (\<lambda>args. Returned ''ok''), numFixTokens = 1\<rparr>]"

definition bucketOutcome :: "MatchInfo list \<Rightarrow> bool list \<Rightarrow> bool list \<times> (string \<times> bool) option" where
  \<comment> \<open>What taking a bucket gives: the commands alive, and the new entry of \<open>newTokens\<close> when
      one is written.\<close>
  "bucketOutcome matchInfos alive =
     (let reference = candidateLowered (hd matchInfos)
      in case bucketScan reference matchInfos (alive, length reference, length reference) of
           (alive', commonLength, longestCandidateLen) \<Rightarrow>
             (alive',
              if commonLength \<noteq> 0 then
                Some (take commonLength (candidate (hd matchInfos)),
                      longestCandidateLen = length (take commonLength (candidate (hd matchInfos))))
              else None))"

definition stepOutcome ::
  "(MatchInfo list \<Rightarrow> MatchInfo list) \<Rightarrow> ConsoleCommand list \<Rightarrow> bool \<Rightarrow> nat \<Rightarrow> string \<Rightarrow> bool list
     \<Rightarrow> exn + bool list \<times> (string \<times> bool) option" where
  \<comment> \<open>What one round of the loop over the tokens gives, for the token \<open>tok\<close> at \<open>tokenID\<close>.\<close>
  "stepOutcome std_sort cmds limitToFixed tokenID tok alive =
     (case cmdBests std_sort limitToFixed tokenID tok cmds 0 (alive, replicate (length cmds) []) of
        Inl e \<Rightarrow> Inl e
      | Inr (alive1, bests, allGroups) \<Rightarrow>
          Inr (let startsWith = filter (\<lambda>m. pos m = Some 0) bests;
                   inMiddle = filter (\<lambda>m. pos m \<noteq> Some 0 \<and> pos m \<noteq> None) bests
               in if startsWith \<noteq> [] then bucketOutcome startsWith alive1
                  else if inMiddle \<noteq> [] then bucketOutcome inMiddle alive1
                  else (alive1, None)))"

fun runOutcomes ::
  "(MatchInfo list \<Rightarrow> MatchInfo list) \<Rightarrow> ConsoleCommand list \<Rightarrow> bool \<Rightarrow> string list \<Rightarrow> nat \<Rightarrow> bool list
     \<Rightarrow> exn + bool list \<times> (string \<times> bool) option list" where
  \<comment> \<open>The rounds of the loop over the tokens, from \<open>tokenID\<close> on.\<close>
  "runOutcomes std_sort cmds limitToFixed [] tokenID alive = Inr (alive, [])"
| "runOutcomes std_sort cmds limitToFixed (tok # rest) tokenID alive =
     (case stepOutcome std_sort cmds limitToFixed tokenID tok alive of
        Inl e \<Rightarrow> Inl e
      | Inr (alive', entry) \<Rightarrow>
          (case runOutcomes std_sort cmds limitToFixed rest (Suc tokenID) alive' of
             Inl e \<Rightarrow> Inl e
           | Inr (aliveF, entries) \<Rightarrow> Inr (aliveF, entry # entries)))"

definition written :: "string \<Rightarrow> (string \<times> bool) option \<Rightarrow> string \<times> bool" where
  \<comment> \<open>The entry of \<open>newTokens\<close> for a typed token, after its round.\<close>
  "written typed entry = (case entry of None \<Rightarrow> (typed, False) | Some e \<Rightarrow> e)"

definition spaced_commands :: "ConsoleCommand list" where
  \<comment> \<open>One command whose only alias holds a space.\<close>
  "spaced_commands =
     [\<lparr>generators = [\<lambda>_. [[''a b'']]],
       callback = External (\<lambda>args. Returned ''ok''), numFixTokens = 1\<rparr>]"

definition token_again :: "bool \<Rightarrow> string \<times> bool \<Rightarrow> string \<times> bool \<Rightarrow> bool" where
  \<comment> \<open>Two entries of \<open>newTokens\<close> with the same mark and the same text up to the case of the
      letters; with \<open>exact\<close> on, the same text.\<close>
  "token_again exact e e' =
     (snd e' = snd e \<and> lower (fst e') = lower (fst e) \<and> (exact \<longrightarrow> fst e' = fst e))"

definition alias_groups :: "ConsoleCommand list \<Rightarrow> string list set" where
  \<comment> \<open>The alias groups that the generators of a registry return.\<close>
  "alias_groups cmds = (\<Union>c \<in> set cmds. \<Union>gen \<in> set (generators c). set (gen ()))"

definition fits_size_t :: "string \<Rightarrow> bool" where
  \<comment> \<open>The size of a \<open>std::string\<close> is a \<open>size_t\<close>: the string has fewer than \<open>2^64\<close>
      characters.\<close>
  "fits_size_t s = (length s < 2 ^ 64)"

definition aliases_fit_size_t :: "ConsoleCommand list \<Rightarrow> bool" where
  "aliases_fit_size_t cmds = (\<forall>g \<in> alias_groups cmds. \<forall>a \<in> set g. fits_size_t a)"

definition no_case_variants :: "ConsoleCommand list \<Rightarrow> bool" where
  \<comment> \<open>No alias group holds two different aliases that are equal up to the case of their
      letters.\<close>
  "no_case_variants cmds =
     (\<forall>g \<in> alias_groups cmds. \<forall>a \<in> set g. \<forall>b \<in> set g. lower a = lower b \<longrightarrow> a = b)"

definition prefixGroupsOnly :: "string \<Rightarrow> nat \<Rightarrow> ConsoleCommand \<Rightarrow> ConsoleCommand" where
  \<comment> \<open>The command with, at the position \<open>tokenID\<close>, every alias group emptied in which no
      alias starts with the (lowered) token \<open>tok\<close>: the groups whose candidates match the
      token inside only, and those that do not match it. The loop over the groups skips an
      empty group.\<close>
  "prefixGroupsOnly tok tokenID c =
     c\<lparr>generators := (generators c)
          [tokenID := \<lambda>_. map (\<lambda>g. if \<exists>a \<in> set g. prefix tok (lower a) then g else [])
                                ((generators c ! tokenID) ())]\<rparr>"

definition missing_generator_commands :: "ConsoleCommand list" where
  \<comment> \<open>A command registered with two fixed tokens and one generator, before the command "x".\<close>
  "missing_generator_commands =
     [\<lparr>generators = [\<lambda>_. [[''a'']]], callback = External (\<lambda>args. Returned ''a''),
       numFixTokens = 2\<rparr>,
      \<lparr>generators = [\<lambda>_. [[''x'']]], callback = External (\<lambda>args. Returned ''x''),
       numFixTokens = 1\<rparr>]"

definition reload_commands :: "ConsoleCommand list" where
  \<comment> \<open>One command with the groups "upload"/"load" and "reload" at its first position.\<close>
  "reload_commands =
     [\<lparr>generators = [\<lambda>_. [[''upload'', ''load''], [''reload'']]],
       callback = External (\<lambda>args. Returned ''ok''), numFixTokens = 1\<rparr>]"


section \<open>Resolution: the first command whose fixed tokens match\<close>

lemma findNameInGroups_Nil_iff:
  "findNameInGroups groups name = [] \<longleftrightarrow> (\<forall>g \<in> set groups. name \<notin> set g)"
  by (induction groups) auto

lemma fixTokensLoop_in_range:
  "\<forall>i \<in> set ids. i < length gens \<and> i < length tokens \<Longrightarrow>
   fixTokensLoop gens tokens ids b =
     Inr (b \<and> (\<forall>i \<in> set ids. \<exists>g \<in> set ((gens ! i) ()). tokens ! i \<in> set g))"
  by (induction ids arbitrary: b) (auto simp: findNameInGroups_Nil_iff Let_def)

lemma fixTokensLoop_command:
  assumes "numFixTokens c \<le> length T" and "numFixTokens c \<le> length (generators c)"
  shows "fixTokensLoop (generators c) T [0 ..< numFixTokens c] True = Inr (fixedTokensMatch c T)"
proof -
  have "\<forall>i \<in> set [0 ..< numFixTokens c]. i < length (generators c) \<and> i < length T"
    using assms by auto
  from fixTokensLoop_in_range [OF this] show ?thesis
    using assms by (auto simp: fixedTokensMatch_def)
qed

lemma fixTokensLoop_out_of_range:
  "\<exists>i \<in> set ids. \<not> (i < length gens \<and> i < length tokens) \<Longrightarrow>
   fixTokensLoop gens tokens ids b = Inl Out_of_range"
  by (induction ids arbitrary: b) (auto simp: Let_def)

lemma determineCommand_from_skip:
  assumes "\<not> fixedTokensMatch c T"
    and "numFixTokens c \<le> length T \<longrightarrow> numFixTokens c \<le> length (generators c)"
  shows "determineCommand_from (c # rest) k T = determineCommand_from rest (Suc k) T"
proof (cases "numFixTokens c > length T")
  case True
  then show ?thesis by simp
next
  case False
  then have "fixTokensLoop (generators c) T [0 ..< numFixTokens c] True = Inr False"
    using assms fixTokensLoop_command [of c T] by simp
  with False show ?thesis by simp
qed

lemma determineCommand_from_throw:
  assumes "numFixTokens c \<le> length T" and "length (generators c) < numFixTokens c"
  shows "determineCommand_from (c # rest) k T = Inl Out_of_range"
proof -
  from assms(2) have "\<exists>i \<in> set [0 ..< numFixTokens c].
      \<not> (i < length (generators c) \<and> i < length T)"
    by (intro bexI [of _ "length (generators c)"]) simp_all
  then have "fixTokensLoop (generators c) T [0 ..< numFixTokens c] True = Inl Out_of_range"
    by (rule fixTokensLoop_out_of_range)
  with assms(1) show ?thesis by simp
qed

lemma determineCommand_from_hit:
  assumes "fixedTokensMatch c T"
  shows "determineCommand_from (c # rest) k T = Inr (int k)"
proof -
  have le: "numFixTokens c \<le> length T" "numFixTokens c \<le> length (generators c)"
    using assms by (auto simp: fixedTokensMatch_def)
  then have "fixTokensLoop (generators c) T [0 ..< numFixTokens c] True = Inr True"
    using assms fixTokensLoop_command [of c T] by simp
  with le show ?thesis by simp
qed

lemma determineCommand_from_first:
  assumes "\<forall>c \<in> set before. \<not> fixedTokensMatch c T"
    and "fixedTokensMatch c T"
  shows "determineCommand_from (before @ c # rest) k T =
           (if \<forall>b \<in> set before.
                 numFixTokens b \<le> length T \<longrightarrow> numFixTokens b \<le> length (generators b)
            then Inr (int (k + length before)) else Inl Out_of_range)"
  using assms(1)
proof (induction before arbitrary: k)
  case Nil
  show ?case
    using assms(2) by (simp add: determineCommand_from_hit del: determineCommand_from.simps)
next
  case (Cons b before)
  then have IH: "determineCommand_from (before @ c # rest) (Suc k) T =
           (if \<forall>b \<in> set before.
                 numFixTokens b \<le> length T \<longrightarrow> numFixTokens b \<le> length (generators b)
            then Inr (int (Suc k + length before)) else Inl Out_of_range)"
    by simp
  from Cons.prems have b: "\<not> fixedTokensMatch b T" by simp
  show ?case
  proof (cases "numFixTokens b \<le> length T \<longrightarrow> numFixTokens b \<le> length (generators b)")
    case True
    from determineCommand_from_skip [OF b True]
    have "determineCommand_from ((b # before) @ c # rest) k T =
        determineCommand_from (before @ c # rest) (Suc k) T"
      by (simp del: determineCommand_from.simps)
    with IH True show ?thesis by simp
  next
    case False
    then have "determineCommand_from ((b # before) @ c # rest) k T = Inl Out_of_range"
      using determineCommand_from_throw [of b T "before @ c # rest" k]
      by (simp del: determineCommand_from.simps)
    with False show ?thesis by simp
  qed
qed

lemma determineCommand_from_none:
  "\<forall>c \<in> set cmds. length T < numFixTokens c \<Longrightarrow> determineCommand_from cmds k T = Inr (- 1)"
  by (induction cmds arbitrary: k) auto

lemma determineCommand_from_no_tokens:
  "determineCommand_from cmds k [] = Inr (- 1) \<longleftrightarrow> (\<forall>c \<in> set cmds. 0 < numFixTokens c)"
  by (induction cmds arbitrary: k) auto

text \<open>
  Claim C1, as the code has it. Let the command at index \<open>i\<close> of the registry be the first
  whose fixed tokens all match the tokens \<open>T\<close>. \<open>determineCommand\<close> returns \<open>i\<close> when every
  command registered before it that has no more fixed tokens than \<open>T\<close> has tokens (the
  commands whose fixed positions are evaluated) has a generator at each of its fixed
  positions. When one of them has fewer generators than fixed tokens, \<open>generators.at\<close> throws
  \<open>std::out_of_range\<close> and the call does not return an id. In both cases what is registered
  after index \<open>i\<close> is never evaluated: the outcome is the same whatever follows.
\<close>

theorem determineCommand_first_match:
  assumes "i < length cmds"
    and "fixedTokensMatch (cmds ! i) T"
    and "\<forall>j < i. \<not> fixedTokensMatch (cmds ! j) T"
  shows "determineCommand cmds T =
           (if \<forall>j < i. numFixTokens (cmds ! j) \<le> length T \<longrightarrow>
                         numFixTokens (cmds ! j) \<le> length (generators (cmds ! j))
            then Inr (int i) else Inl Out_of_range) \<and>
         (\<forall>later. determineCommand (take i cmds @ cmds ! i # later) T = determineCommand cmds T)"
proof -
  have before: "\<forall>c \<in> set (take i cmds). \<not> fixedTokensMatch c T"
    using assms by (auto simp: in_set_conv_nth)
  have len: "length (take i cmds) = i"
    using assms(1) by simp
  have mem: "cmds ! j \<in> set (take i cmds)" if "j < i" for j
    using that len by (metis nth_mem nth_take)
  have tried: "(\<forall>b \<in> set (take i cmds).
        numFixTokens b \<le> length T \<longrightarrow> numFixTokens b \<le> length (generators b)) \<longleftrightarrow>
      (\<forall>j < i. numFixTokens (cmds ! j) \<le> length T \<longrightarrow>
                 numFixTokens (cmds ! j) \<le> length (generators (cmds ! j)))"
  proof
    assume "\<forall>b \<in> set (take i cmds).
        numFixTokens b \<le> length T \<longrightarrow> numFixTokens b \<le> length (generators b)"
    with mem show "\<forall>j < i. numFixTokens (cmds ! j) \<le> length T \<longrightarrow>
        numFixTokens (cmds ! j) \<le> length (generators (cmds ! j))"
      by blast
  next
    assume "\<forall>j < i. numFixTokens (cmds ! j) \<le> length T \<longrightarrow>
        numFixTokens (cmds ! j) \<le> length (generators (cmds ! j))"
    then show "\<forall>b \<in> set (take i cmds).
        numFixTokens b \<le> length T \<longrightarrow> numFixTokens b \<le> length (generators b)"
      using assms(1) by (auto simp: in_set_conv_nth)
  qed
  have run: "determineCommand_from (take i cmds @ cmds ! i # rest) 0 T =
      (if \<forall>j < i. numFixTokens (cmds ! j) \<le> length T \<longrightarrow>
                    numFixTokens (cmds ! j) \<le> length (generators (cmds ! j))
       then Inr (int i) else Inl Out_of_range)" for rest
    using determineCommand_from_first [OF before assms(2), of rest 0] len
    by (simp only: tried) simp
  moreover have "cmds = take i cmds @ cmds ! i # drop (Suc i) cmds"
    using assms(1) by (simp add: id_take_nth_drop)
  ultimately have "determineCommand_from cmds 0 T =
      (if \<forall>j < i. numFixTokens (cmds ! j) \<le> length T \<longrightarrow>
                    numFixTokens (cmds ! j) \<le> length (generators (cmds ! j))
       then Inr (int i) else Inl Out_of_range)"
    by metis
  with run show ?thesis
    unfolding determineCommand_def by simp
qed

text \<open>
  The tokens "ld game" match the second and the third sample command, and not the first:
  the second one is returned.
\<close>

theorem determineCommand_first_match_witness:
  "fixedTokensMatch (sample_commands ! 1) [''ld'', ''game''] \<and>
   fixedTokensMatch (sample_commands ! 2) [''ld'', ''game''] \<and>
   \<not> fixedTokensMatch (sample_commands ! 0) [''ld'', ''game''] \<and>
   determineCommand sample_commands [''ld'', ''game''] = Inr 1 \<and>
   (\<forall>later. determineCommand (take 1 sample_commands @ sample_commands ! 1 # later)
      [''ld'', ''game''] = Inr 1)"
proof -
  have match: "fixedTokensMatch (sample_commands ! 1) [''ld'', ''game'']"
    "fixedTokensMatch (sample_commands ! 2) [''ld'', ''game'']"
    "\<not> fixedTokensMatch (sample_commands ! 0) [''ld'', ''game'']"
    by (simp_all add: sample_commands_def fixedTokensMatch_def)
  have first: "\<forall>j < 1. \<not> fixedTokensMatch (sample_commands ! j) [''ld'', ''game'']"
    using match(3) by simp
  have tried: "\<forall>j < 1. numFixTokens (sample_commands ! j) \<le> length [''ld'', ''game''] \<longrightarrow>
      numFixTokens (sample_commands ! j) \<le> length (generators (sample_commands ! j))"
    by (simp add: sample_commands_def)
  have "1 < length sample_commands"
    by (simp add: sample_commands_def)
  note run = determineCommand_first_match [OF this match(1) first, unfolded if_P [OF tried]]
  from run have result: "determineCommand sample_commands [''ld'', ''game''] = Inr (int 1)"
    by (rule conjunct1)
  from run have "\<forall>later. determineCommand (take 1 sample_commands @ sample_commands ! 1 # later)
      [''ld'', ''game''] = determineCommand sample_commands [''ld'', ''game'']"
    by (rule conjunct2)
  with result match show ?thesis by simp
qed

text \<open>
  The first command of this registry has two fixed tokens and one generator. The tokens
  "x y" match the second command and not the first, and the call throws at the second fixed
  position of the first command.
\<close>

theorem determineCommand_missing_generator_counterexample:
  "fixedTokensMatch (missing_generator_commands ! 1) [''x'', ''y''] \<and>
   \<not> fixedTokensMatch (missing_generator_commands ! 0) [''x'', ''y''] \<and>
   determineCommand missing_generator_commands [''x'', ''y''] = Inl Out_of_range"
  by (simp add: missing_generator_commands_def fixedTokensMatch_def determineCommand_def
      numeral_2_eq_2)

text \<open>
  Claim C3, as the code has it. On a token sequence shorter than the number of fixed tokens of
  every registered command, \<open>determineCommand\<close> returns \<open>-1\<close> (not found). On the empty
  token sequence it returns \<open>-1\<close> exactly when every registered command has at least one
  fixed token: a command registered with no fixed token matches every sequence, the empty
  one too.
\<close>

theorem determineCommand_too_short:
  "((\<forall>c \<in> set cmds. length T < numFixTokens c) \<longrightarrow> determineCommand cmds T = Inr (- 1)) \<and>
   (determineCommand cmds [] = Inr (- 1) \<longleftrightarrow> (\<forall>c \<in> set cmds. 0 < numFixTokens c))"
  by (simp add: determineCommand_def determineCommand_from_none determineCommand_from_no_tokens)

theorem determineCommand_too_short_witness:
  "determineCommand sample_commands [] = Inr (- 1) \<and>
   determineCommand (m_Commands2 Console_new) [] = Inr (- 1)"
  using determineCommand_too_short [of sample_commands "[]"]
    determineCommand_too_short [of "m_Commands2 Console_new" "[]"]
  by (simp add: sample_commands_def Console_new_def)

text \<open>
  With a command that has no fixed token in the registry, the empty token sequence resolves
  to that command.
\<close>

theorem determineCommand_no_tokens_counterexample:
  "determineCommand catch_all_commands [] = Inr 1 \<and>
   determineCommand catch_all_commands [] \<noteq> Inr (- 1)"
  by (simp add: determineCommand_def catch_all_commands_def)


section \<open>Submitting a line: history, index and output\<close>


lemma find_first_not_of_space:
  "find_first_not_of line CHR '' '' = None \<longleftrightarrow> spaces_only line"
  "(\<exists>y. find_first_not_of line CHR '' '' = Some y) \<longleftrightarrow> \<not> spaces_only line"
  by (auto simp: find_first_not_of_def spaces_only_def)

lemma spaces_only_Nil: "spaces_only []"
  by (simp add: spaces_only_def)

lemma invoke_frame:
  "m_History (fst (invoke cb args c)) = m_History c"
  "m_HistoryIndex (fst (invoke cb args c)) = m_HistoryIndex c"
  "m_PendingLine (fst (invoke cb args c)) = m_PendingLine c"
  by (auto simp: invoke_def split: Callback.splits prod.splits sum.splits)

lemma dispatch_frame:
  "m_History (fst (dispatch cbo args c)) = m_History c"
  "m_HistoryIndex (fst (dispatch cbo args c)) = m_HistoryIndex c"
  "m_PendingLine (fst (dispatch cbo args c)) = m_PendingLine c"
  using invoke_frame [of _ args c]
  by (auto simp: dispatch_def outputAdd_def Let_def split: option.splits prod.splits sum.splits
      dest!: arg_cong [where f = fst])

lemma submitCommand_history:
  "m_History (fst (submitCommand split c line)) =
     (if \<not> spaces_only line \<and> (m_History c = [] \<or> last (m_History c) \<noteq> line)
      then m_History c @ [line] else m_History c)"
  by (auto simp: submitCommand_def Let_def dispatch_frame outputAdd_def find_first_not_of_space
      spaces_only_Nil split: sum.splits prod.splits)

lemma submitCommand_index:
  "m_HistoryIndex (fst (submitCommand split c line)) = - 1"
  by (simp add: submitCommand_def Let_def dispatch_frame outputAdd_def
      split: sum.splits prod.splits)

lemma submitCommand_history_ok:
  "history_ok (m_History c) \<Longrightarrow> history_ok (m_History (fst (submitCommand split c line)))"
  by (auto simp: submitCommand_history history_ok_def distinct_adj_append_iff)

lemma submitAll_preserves:
  "history_ok (m_History c) \<Longrightarrow> history_ok (m_History (submitAll split c ls))"
  by (induction ls arbitrary: c) (simp_all add: submitCommand_history_ok)

text \<open>
  Claim C7, as the code has it. After any sequence of calls of \<open>submitCommand\<close> on the
  constructed console, and on any console whose history satisfies it already, the history holds
  no empty line, no line of space characters only, and no two consecutive equal entries.
  Submitting a line of spaces only adds no entry, and so does submitting the most recent
  entry again. The test is \<open>find_first_not_of(' ')\<close>: only the space character counts as
  blank.
\<close>

theorem submitAll_history_ok:
  "history_ok (m_History (submitAll split Console_new ls)) \<and>
   (history_ok (m_History c) \<longrightarrow> history_ok (m_History (submitAll split c ls))) \<and>
   (spaces_only line \<longrightarrow> m_History (fst (submitCommand split c line)) = m_History c) \<and>
   (m_History c \<noteq> [] \<and> last (m_History c) = line \<longrightarrow>
      m_History (fst (submitCommand split c line)) = m_History c)"
proof -
  have "history_ok (m_History Console_new)"
    by (simp add: Console_new_def history_ok_def)
  then show ?thesis
    by (simp add: submitAll_preserves submitCommand_history)
qed

text \<open>
  "foo", "foo" again, the empty line, three spaces and "bar" leave the two entries "foo" and
  "bar".
\<close>

theorem submitAll_history_ok_witness:
  "history_ok (m_History (submitAll getline_split Console_new
      [''foo'', ''foo'', [], ''   '', ''bar''])) \<and>
   m_History (submitAll getline_split Console_new [''foo'', ''foo'', [], ''   '', ''bar'']) =
     [''foo'', ''bar'']"
  using submitAll_history_ok [of getline_split "[''foo'', ''foo'', [], ''   '', ''bar'']"]
  by (simp add: submitCommand_history spaces_only_def Console_new_def)

text \<open>
  A line that holds a tab character only is whitespace only, and it is stored.
\<close>

theorem submitCommand_tab_counterexample:
  "m_History (fst (submitCommand getline_split Console_new [CHR 0x09])) = [[CHR 0x09]] \<and>
   list_all isspace [CHR 0x09]"
  by (simp add: submitCommand_history spaces_only_def Console_new_def isspace_def)

lemma index_in_range_submitCommand:
  "index_in_range (fst (submitCommand split c line))"
  by (simp add: index_in_range_def submitCommand_index)

lemma historyLine_frame:
  "m_History (fst (historyLine c)) = m_History c"
  "m_HistoryIndex (fst (historyLine c)) = m_HistoryIndex c"
  by (auto simp: historyLine_def Let_def split: option.splits)

lemmas GLFW_KEY_defs =
  GLFW_KEY_ESCAPE_def GLFW_KEY_ENTER_def GLFW_KEY_TAB_def GLFW_KEY_BACKSPACE_def
  GLFW_KEY_DOWN_def GLFW_KEY_UP_def GLFW_KEY_F10_def

lemma onKeyDown_index_in_range:
  assumes "index_in_range c"
  shows "index_in_range (fst (onKeyDown split srt c k))"
proof -
  have range: "- 1 \<le> m_HistoryIndex c" "m_HistoryIndex c \<le> int (length (m_History c)) - 1"
    using assms by (simp_all add: index_in_range_def)
  consider (up) "k = GLFW_KEY_UP" | (down) "k = GLFW_KEY_DOWN" | (enter) "k = GLFW_KEY_ENTER"
    | (other) "k \<noteq> GLFW_KEY_UP" "k \<noteq> GLFW_KEY_DOWN" "k \<noteq> GLFW_KEY_ENTER"
    by blast
  then show ?thesis
  proof cases
    case up
    then have "fst (onKeyDown split srt c k) =
        (if int (length (m_History c)) > m_HistoryIndex c + 1 then
           fst (historyLine ((if m_HistoryIndex c < 0 then c\<lparr>m_PendingLine := m_TypedLine c\<rparr>
              else c)\<lparr>m_HistoryIndex := m_HistoryIndex c + 1\<rparr>))
         else c)"
      by (simp add: onKeyDown_def GLFW_KEY_defs Let_def)
    then show ?thesis
      using range by (simp add: index_in_range_def historyLine_frame)
  next
    case down
    then have "fst (onKeyDown split srt c k) =
        (if m_HistoryIndex c \<ge> 0 then
           (if m_HistoryIndex c - 1 < 0
            then c\<lparr>m_HistoryIndex := m_HistoryIndex c - 1, m_TypedLine := m_PendingLine c\<rparr>
            else fst (historyLine (c\<lparr>m_HistoryIndex := m_HistoryIndex c - 1\<rparr>)))
         else c)"
      by (simp add: onKeyDown_def GLFW_KEY_defs Let_def)
    then show ?thesis
      using range by (simp add: index_in_range_def historyLine_frame)
  next
    case enter
    obtain c3 r where sub: "submitCommand split c (m_TypedLine c) = (c3, r)"
      by (cases "submitCommand split c (m_TypedLine c)")
    then have c3: "index_in_range c3"
      using index_in_range_submitCommand [of split c "m_TypedLine c"] by simp
    from enter sub have "fst (onKeyDown split srt c k) =
        (case r of Inl e \<Rightarrow> c3 | Inr x \<Rightarrow> c3\<lparr>m_TypedLine := []\<rparr>)"
      by (simp add: onKeyDown_def GLFW_KEY_defs Let_def split: sum.splits)
    then show ?thesis
      using c3 by (simp add: index_in_range_def split: sum.splits)
  next
    case other
    then have "m_History (fst (onKeyDown split srt c k)) = m_History c \<and>
        m_HistoryIndex (fst (onKeyDown split srt c k)) = m_HistoryIndex c"
      by (simp add: onKeyDown_def Let_def split: sum.splits prod.splits)
    then show ?thesis
      using range by (simp add: index_in_range_def)
  qed
qed

text \<open>
  Claim C8. The operations keep the navigation index in \<open>[-1, length - 1]\<close>
  (\<open>onKeyDown_index_in_range\<close>), and \<open>submitCommand\<close> sets it to \<open>-1\<close>
  (\<open>index_in_range_submitCommand\<close>). The constructor however sets the index to \<open>0\<close> with an
  empty history, outside \<open>[-1, -1]\<close>; on the new console the key "down" then takes the index
  for a browsing position and replaces the typed line by the empty pending line.
\<close>

theorem Console_new_index_out_of_range:
  "m_HistoryIndex Console_new = 0 \<and> m_History Console_new = [] \<and>
   \<not> index_in_range Console_new \<and>
   m_TypedLine (fst (onKeyDown split srt (onTextInput ''abc'' Console_new) GLFW_KEY_DOWN)) = []"
  by (simp add: Console_new_def index_in_range_def onKeyDown_def onTextInput_def Let_def
      GLFW_KEY_DOWN_def GLFW_KEY_UP_def GLFW_KEY_ESCAPE_def GLFW_KEY_F10_def)

lemma submitCommand_Nil:
  "submitCommand split c [] = (c\<lparr>m_HistoryIndex := - 1, m_PendingLine := []\<rparr>, Inr [])"
  by (simp add: submitCommand_def find_first_not_of_def)

lemma submitCommand_not_found:
  assumes "line \<noteq> []"
    and "determineCommand (m_Commands2 c) (split line CHR '' '') = Inr (- 1)"
    and "snd (legacyLoop (m_Commands c) line 0 (0, - 1)) < 0"
  shows "snd (submitCommand split c line) = Inr ''NOTFOUND''"
    and "m_Output (fst (submitCommand split c line)) =
           '' -- Command not found -- '' # ('' >> '' @ line) # m_Output c"
proof -
  obtain bs bi where loop: "legacyLoop (m_Commands c) line 0 (0, - 1) = (bs, bi)"
    by (cases "legacyLoop (m_Commands c) line 0 (0, - 1)")
  with assms(3) have "\<not> bi \<ge> 0"
    by simp
  with assms(1,2) loop show "snd (submitCommand split c line) = Inr ''NOTFOUND''"
    and "m_Output (fst (submitCommand split c line)) =
           '' -- Command not found -- '' # ('' >> '' @ line) # m_Output c"
    by (simp_all add: submitCommand_def Let_def outputAdd_def)
qed

text \<open>
  Claim C9. Submitting the empty line returns the empty string; the console afterwards is the
  one before with the navigation reset (index \<open>-1\<close>, pending line cleared): no history entry
  is added and nothing is written to the output. This differs from the outcome "not found" of
  a line that is not empty and that neither the new nor the old command system resolves: it
  returns \<open>NOTFOUND\<close> and writes the echo of the line and the message to the output.
\<close>

theorem submitCommand_empty_line:
  "submitCommand split c [] = (c\<lparr>m_HistoryIndex := - 1, m_PendingLine := []\<rparr>, Inr []) \<and>
   m_History (fst (submitCommand split c [])) = m_History c \<and>
   m_Output (fst (submitCommand split c [])) = m_Output c \<and>
   (line \<noteq> [] \<and> determineCommand (m_Commands2 c) (split line CHR '' '') = Inr (- 1) \<and>
    snd (legacyLoop (m_Commands c) line 0 (0, - 1)) < 0 \<longrightarrow>
      snd (submitCommand split c line) = Inr ''NOTFOUND'' \<and>
      m_Output (fst (submitCommand split c line)) =
        '' -- Command not found -- '' # ('' >> '' @ line) # m_Output c)"
  using submitCommand_not_found [of line c split]
  by (simp add: submitCommand_Nil)

text \<open>
  On the constructed console "foo" resolves to nothing.
\<close>

theorem submitCommand_empty_line_witness:
  "submitCommand getline_split Console_new [] =
     (Console_new\<lparr>m_HistoryIndex := - 1, m_PendingLine := []\<rparr>, Inr []) \<and>
   snd (submitCommand getline_split Console_new ''foo'') = Inr ''NOTFOUND'' \<and>
   m_Output (fst (submitCommand getline_split Console_new ''foo'')) =
     ['' -- Command not found -- '', '' >> foo'', '' ----------- REGoth Console -----------'']"
  using submitCommand_empty_line [of getline_split Console_new "''foo''"]
  by (simp add: Console_new_def determineCommand_def getline_split_def)


section \<open>The old command system\<close>


lemma legacyMatches_code:
  "(length line = length cand \<or> (length line > length cand \<and> line ! length cand = CHR '' ''))
     \<and> cand = take (length cand) line \<longleftrightarrow> legacyMatches cand line"
proof -
  have "cand = take (length cand) line \<longleftrightarrow> prefix cand line"
    by (metis append_eq_conv_conj prefix_def take_is_prefix)
  moreover have "prefix cand line \<Longrightarrow> length line \<noteq> length cand \<Longrightarrow> length line > length cand"
    using prefix_length_le [of cand line] by simp
  ultimately show ?thesis
    unfolding legacyMatches_def by blast
qed

lemma legacyLoop_step:
  "legacyLoop [x] line n (bs, bi) =
     (if length x \<ge> bs \<and> legacyMatches x line then (length x, int n) else (bs, bi))"
  using legacyMatches_code [of line x] by auto

lemma legacyLoop_append:
  "legacyLoop (xs @ ys) line i st = legacyLoop ys line (i + length xs) (legacyLoop xs line i st)"
  by (induction xs arbitrary: i st) (auto split: prod.splits)

lemma legacy_inv_step:
  assumes "legacy_inv xs line (bs, bi)"
  shows "legacy_inv (xs @ [x]) line (legacyLoop [x] line (length xs) (bs, bi))"
proof (cases "length x \<ge> bs \<and> legacyMatches x line")
  case True
  have "\<forall>j < length xs. legacyMatches (xs ! j) line \<longrightarrow> length (xs ! j) \<le> bs"
    using assms by (auto simp: legacy_inv_def)
  with True have "\<forall>j < length (xs @ [x]). legacyMatches ((xs @ [x]) ! j) line \<longrightarrow>
      length ((xs @ [x]) ! j) \<le> length x \<and> (length ((xs @ [x]) ! j) = length x \<longrightarrow> j \<le> length xs)"
    by (auto simp: nth_append less_Suc_eq)
  with True show ?thesis
    unfolding legacyLoop_step legacy_inv_def
    by (auto intro!: exI [of _ "length xs"])
next
  case False
  then have loop: "legacyLoop [x] line (length xs) (bs, bi) = (bs, bi)"
    by (simp only: legacyLoop_step if_False)
  from assms consider
    (none) "bi = - 1" "bs = 0" "\<forall>j < length xs. \<not> legacyMatches (xs ! j) line"
    | (some) k where "k < length xs" "bi = int k" "bs = length (xs ! k)"
        "legacyMatches (xs ! k) line"
        "\<forall>j < length xs. legacyMatches (xs ! j) line \<longrightarrow>
              length (xs ! j) \<le> bs \<and> (length (xs ! j) = bs \<longrightarrow> j \<le> k)"
    by (auto simp: legacy_inv_def)
  then show ?thesis
  proof cases
    case none
    with False have "\<forall>j < length (xs @ [x]). \<not> legacyMatches ((xs @ [x]) ! j) line"
      by (auto simp: nth_append less_Suc_eq)
    with none show ?thesis
      unfolding loop legacy_inv_def by simp
  next
    case some
    from False some(3) have x: "legacyMatches x line \<Longrightarrow> length x < length (xs ! k)"
      by auto
    have "\<forall>j < length (xs @ [x]). legacyMatches ((xs @ [x]) ! j) line \<longrightarrow>
        length ((xs @ [x]) ! j) \<le> bs \<and> (length ((xs @ [x]) ! j) = bs \<longrightarrow> j \<le> k)"
      using some x by (auto simp: nth_append less_Suc_eq)
    with some(1-4) show ?thesis
      unfolding loop legacy_inv_def
      by (auto simp: nth_append intro!: exI [of _ k])
  qed
qed

lemma legacyLoop_inv:
  "legacy_inv xs line (legacyLoop xs line 0 (0, - 1))"
proof (induction xs rule: rev_induct)
  case Nil
  show ?case by (simp add: legacy_inv_def)
next
  case (snoc x xs)
  obtain bs bi where st: "legacyLoop xs line 0 (0, - 1) = (bs, bi)"
    by (cases "legacyLoop xs line 0 (0, - 1)")
  with snoc legacy_inv_step [of xs line bs bi x] show ?case
    by (simp add: legacyLoop_append del: legacyLoop.simps)
qed

lemma submitCommand_legacy:
  assumes "line \<noteq> []"
    and "determineCommand (m_Commands2 c) (split line CHR '' '') = Inr (- 1)"
    and "legacyLoop (m_Commands c) line 0 (0, - 1) = (bs, bi)"
    and "0 \<le> bi"
    and "vector_at (m_CommandCallbacks c) bi = Some (External f)"
  shows "snd (submitCommand split c line) = Inr (caught (f (split line CHR '' '')))"
  using assms
  by (simp add: submitCommand_def Let_def outputAdd_def dispatch_def invoke_def)

text \<open>
  Claim C4, as the code has it. Let the line be not empty and let \<open>determineCommand\<close> fail
  on it. Among the legacy command strings that are a prefix of the line ending on a token
  boundary, the loop selects a longest one, and of two that are equally long the one
  registered later: a candidate is passed over only when it is strictly shorter than the best
  match so far. The callback at the selected index is called. When no legacy string matches,
  the index stays \<open>-1\<close> and the result is \<open>NOTFOUND\<close>.
\<close>

theorem legacy_fallback_longest_latest:
  assumes "line \<noteq> []"
    and "determineCommand (m_Commands2 c) (split line CHR '' '') = Inr (- 1)"
    and "legacyLoop (m_Commands c) line 0 (0, - 1) = (bs, bi)"
  shows "if \<exists>j < length (m_Commands c). legacyMatches (m_Commands c ! j) line
    then 0 \<le> bi \<and> nat bi < length (m_Commands c) \<and>
         legacyMatches (m_Commands c ! nat bi) line \<and>
         (\<forall>j < length (m_Commands c). legacyMatches (m_Commands c ! j) line \<longrightarrow>
            length (m_Commands c ! j) \<le> length (m_Commands c ! nat bi) \<and>
            (length (m_Commands c ! j) = length (m_Commands c ! nat bi) \<longrightarrow> j \<le> nat bi)) \<and>
         (\<forall>f. vector_at (m_CommandCallbacks c) bi = Some (External f) \<longrightarrow>
            snd (submitCommand split c line) = Inr (caught (f (split line CHR '' ''))))
    else bi = - 1 \<and> snd (submitCommand split c line) = Inr ''NOTFOUND''"
proof (cases "\<exists>j < length (m_Commands c). legacyMatches (m_Commands c ! j) line")
  case True
  with legacyLoop_inv [of "m_Commands c" line] assms(3)
  have sel: "0 \<le> bi \<and> nat bi < length (m_Commands c) \<and>
         legacyMatches (m_Commands c ! nat bi) line \<and>
         (\<forall>j < length (m_Commands c). legacyMatches (m_Commands c ! j) line \<longrightarrow>
            length (m_Commands c ! j) \<le> length (m_Commands c ! nat bi) \<and>
            (length (m_Commands c ! j) = length (m_Commands c ! nat bi) \<longrightarrow> j \<le> nat bi))"
    by (auto simp: legacy_inv_def)
  then have "0 \<le> bi" by simp
  from submitCommand_legacy [of line c split bs bi, OF assms this] sel True show ?thesis
    by simp
next
  case False
  with legacyLoop_inv [of "m_Commands c" line] assms(3) have "bi = - 1"
    by (auto simp: legacy_inv_def)
  with submitCommand_not_found(1) [of line c split, OF assms(1,2)] assms(3) False show ?thesis
    by simp
qed

text \<open>
  On "save all now" the strings "save" and "save all" match; "save all" is registered second
  and fourth, and the fourth callback is called.
\<close>

theorem legacy_fallback_longest_latest_witness:
  "m_Commands legacy_console = [''save'', ''save all'', ''load'', ''save all''] \<and>
   legacyMatches ''save'' ''save all now'' \<and> legacyMatches ''save all'' ''save all now'' \<and>
   \<not> legacyMatches ''load'' ''save all now'' \<and>
   legacyLoop (m_Commands legacy_console) ''save all now'' 0 (0, - 1) = (8, 3) \<and>
   snd (submitCommand getline_split legacy_console ''save all now'') = Inr ''4''"
proof -
  have cmds: "m_Commands legacy_console = [''save'', ''save all'', ''load'', ''save all'']"
    and cbs: "vector_at (m_CommandCallbacks legacy_console) 3 =
      Some (External (\<lambda>args. Returned ''4''))"
    and cmds2: "m_Commands2 legacy_console = m_Commands2 Console_new"
    by (simp_all add: legacy_console_def registerCommand_def Console_new_def vector_at_def)
  have ms: "legacyMatches ''save'' ''save all now''" "legacyMatches ''save all'' ''save all now''"
    "\<not> legacyMatches ''load'' ''save all now''"
    by (simp_all add: legacyMatches_def)
  have h1: "''save all now'' \<noteq> []"
    by simp
  have h2: "determineCommand (m_Commands2 legacy_console)
      (getline_split ''save all now'' CHR '' '') = Inr (- 1)"
    by (simp add: cmds2 Console_new_def determineCommand_def getline_split_def)
  have h3: "legacyLoop (m_Commands legacy_console) ''save all now'' 0 (0, - 1) = (8, 3)"
    by (simp add: cmds)
  have ex: "\<exists>j < length (m_Commands legacy_console).
      legacyMatches (m_Commands legacy_console ! j) ''save all now''"
    using ms(1) by (intro exI [of _ 0]) (simp add: cmds)
  from legacy_fallback_longest_latest [of "''save all now''" legacy_console getline_split 8 3,
      OF h1 h2 h3] ex
  have "\<forall>f. vector_at (m_CommandCallbacks legacy_console) 3 = Some (External f) \<longrightarrow>
      snd (submitCommand getline_split legacy_console ''save all now'') =
        Inr (caught (f (getline_split ''save all now'' CHR '' '')))"
    by (auto split: if_splits)
  with cbs have "snd (submitCommand getline_split legacy_console ''save all now'') = Inr ''4''"
    by (simp add: caught_def)
  with cmds ms h3 show ?thesis
    by simp
qed

text \<open>
  With "save" registered twice, the second registration wins on "save now", not the first.
\<close>

theorem legacy_fallback_tie_counterexample:
  "m_Commands two_saves = [''save'', ''save''] \<and>
   determineCommand (m_Commands2 two_saves) (getline_split ''save now'' CHR '' '') = Inr (- 1) \<and>
   legacyLoop (m_Commands two_saves) ''save now'' 0 (0, - 1) = (4, 1) \<and>
   snd (submitCommand getline_split two_saves ''save now'') = Inr ''second''"
  by (simp add: two_saves_def registerCommand_def Console_new_def determineCommand_def
      getline_split_def submitCommand_def Let_def outputAdd_def dispatch_def vector_at_def
      invoke_def caught_def find_first_not_of_def)


section \<open>Facts on case folding, string search, wrap-around and sorting\<close>


lemma lower_case_not_upper:
  "list_all (\<lambda>(u, l). map_of ascii_upper_lower l = None) ascii_upper_lower"
  by (simp add: ascii_upper_lower_def)

lemma tolower_idem: "tolower (tolower c) = tolower c"
proof (cases "map_of ascii_upper_lower c")
  case None
  then show ?thesis by (simp add: tolower_def)
next
  case (Some l)
  then have "(c, l) \<in> set ascii_upper_lower"
    by (rule map_of_SomeD)
  with lower_case_not_upper have "map_of ascii_upper_lower l = None"
    by (auto simp only: list_all_iff)
  with Some show ?thesis by (simp add: tolower_def)
qed

lemma length_lower: "length (lower s) = length s"
  by (simp add: lower_def)

lemma lower_idem: "lower (lower s) = lower s"
  by (simp add: lower_def tolower_idem)

lemma string_find_zero_iff: "string_find s t = Some 0 \<longleftrightarrow> prefix t s"
  by (cases s) auto

lemma string_find_occurrence:
  "string_find s t = Some p \<Longrightarrow> prefix t (drop p s) \<and> p \<le> length s"
proof (induction s arbitrary: p)
  case Nil
  then show ?case by (auto split: if_splits)
next
  case (Cons c cs)
  show ?case
  proof (cases "prefix t (c # cs)")
    case True
    with Cons.prems show ?thesis by simp
  next
    case False
    with Cons.prems obtain q where "string_find cs t = Some q" "p = Suc q"
      by auto
    with Cons.IH [of q] show ?thesis by simp
  qed
qed

lemma string_find_first:
  "prefix t (drop p s) \<Longrightarrow> \<exists>q \<le> p. string_find s t = Some q"
proof (induction s arbitrary: p)
  case Nil
  then show ?case by simp
next
  case (Cons c cs)
  show ?case
  proof (cases "prefix t (c # cs)")
    case True
    then show ?thesis by simp
  next
    case False
    with Cons.prems obtain p' where p: "p = Suc p'"
      by (cases p) auto
    with Cons.prems have "prefix t (drop p' cs)" by simp
    from Cons.IH [OF this] obtain q where "q \<le> p'" "string_find cs t = Some q"
      by blast
    with False p show ?thesis by simp
  qed
qed

lemma string_find_extend:
  assumes "string_find r t = Some p" and "prefix r s"
  shows "\<exists>q \<le> p. string_find s t = Some q"
proof -
  from assms(2) obtain z where s: "s = r @ z"
    by (auto simp: prefix_def)
  from string_find_occurrence [OF assms(1)] have "prefix t (drop p r)" "p \<le> length r"
    by simp_all
  then have "prefix t (drop p s)"
    by (simp add: s prefix_prefix)
  then show ?thesis by (rule string_find_first)
qed

lemma string_find_self: "string_find r r = Some 0"
  by (simp add: string_find_zero_iff)

lemma wrap_sub_self:
  fixes a n :: nat
  assumes "0 < n"
  shows "(a + n - a mod n) mod n = 0"
proof -
  have "a mod n \<le> a" by simp
  then have "a + n - a mod n = (a - a mod n) + n" by simp
  then have "(a + n - a mod n) mod n = (a - a mod n) mod n"
    by (simp only: mod_add_self2)
  also have "\<dots> = 0"
    by (simp add: minus_mod_eq_mult_div)
  finally show ?thesis .
qed

lemma size_t_sub_self: "size_t_sub a a = 0"
  unfolding size_t_sub_def by (rule wrap_sub_self) simp

lemma size_t_sub_zero_eq:
  assumes "size_t_sub a b = 0" and "b \<le> a" and "a < 2 ^ 64"
  shows "a = b"
proof -
  from assms(2,3) have "b mod 2 ^ 64 = b" by simp
  with assms(1) have "(a + 2 ^ 64 - b) mod 2 ^ 64 = 0"
    by (simp add: size_t_sub_def)
  moreover from assms(2) have "a + 2 ^ 64 - b = (a - b) + 2 ^ 64" by simp
  ultimately have "(a - b) mod 2 ^ 64 = 0"
    by (simp only: mod_add_self2)
  moreover from assms(3) have "a - b < 2 ^ 64" by simp
  ultimately have "a - b = 0" by simp
  with assms(2) show ?thesis by simp
qed

lemma MatchInfo_compare_irrefl: "\<not> MatchInfo_compare a a"
  by (simp add: MatchInfo_compare_def)

lemma MatchInfo_compare_asym: "MatchInfo_compare a b \<Longrightarrow> \<not> MatchInfo_compare b a"
  by (auto simp: MatchInfo_compare_def size_t_less_def split: if_splits option.splits)

lemma MatchInfo_compare_negtrans:
  "MatchInfo_compare a c \<Longrightarrow> MatchInfo_compare a b \<or> MatchInfo_compare b c"
  by (auto simp: MatchInfo_compare_def size_t_less_def split: if_splits option.splits)

text \<open>What the contract of \<open>std::sort\<close> gives on the head of the sorted range.\<close>

lemma std_sort_set:
  assumes "std_sort_contract srt"
  shows "set (srt xs) = set xs"
proof -
  have "x \<in> set (srt xs) \<longleftrightarrow> x \<in> set xs" for x
  proof -
    from assms have "count_list (srt xs) x = count_list xs x"
      by (simp add: std_sort_contract_def)
    then show ?thesis
      by (metis count_list_0_iff)
  qed
  then show ?thesis by blast
qed

lemma std_sort_Nil_iff:
  assumes "std_sort_contract srt"
  shows "srt xs = [] \<longleftrightarrow> xs = []"
  using std_sort_set [OF assms, of xs] by (metis set_empty)

lemma hd_std_sort_in:
  assumes "std_sort_contract srt" and "xs \<noteq> []"
  shows "hd (srt xs) \<in> set xs"
proof -
  from assms have "srt xs \<noteq> []"
    by (simp add: std_sort_Nil_iff)
  then have "hd (srt xs) \<in> set (srt xs)"
    by (rule hd_in_set)
  then show ?thesis
    by (simp add: std_sort_set [OF assms(1)])
qed

lemma hd_std_sort_least:
  assumes "std_sort_contract srt" and "x \<in> set xs"
  shows "\<not> MatchInfo_compare x (hd (srt xs))"
proof -
  from assms(2) have "x \<in> set (srt xs)"
    by (simp add: std_sort_set [OF assms(1)])
  then obtain y ys where ys: "srt xs = y # ys"
    by (cases "srt xs") auto
  from assms(1) have "sorted_wrt (\<lambda>a b. \<not> MatchInfo_compare b a) (srt xs)"
    by (simp add: std_sort_contract_def)
  with ys have "\<forall>z \<in> set ys. \<not> MatchInfo_compare z y"
    by simp
  with \<open>x \<in> set (srt xs)\<close> ys show ?thesis
    by (auto simp: MatchInfo_compare_irrefl)
qed

text \<open>The insertion sort of the samples meets the contract.\<close>

lemma count_list_insertMatchInfo:
  "count_list (insertMatchInfo x ys) z = count_list (x # ys) z"
  by (induction ys) auto

lemma set_insertMatchInfo: "set (insertMatchInfo x ys) = insert x (set ys)"
  by (induction ys) auto

lemma sorted_insertMatchInfo:
  "sorted_wrt (\<lambda>a b. \<not> MatchInfo_compare b a) ys \<Longrightarrow>
   sorted_wrt (\<lambda>a b. \<not> MatchInfo_compare b a) (insertMatchInfo x ys)"
proof (induction ys)
  case Nil
  show ?case by simp
next
  case (Cons y ys)
  show ?case
  proof (cases "MatchInfo_compare y x")
    case True
    then have "\<not> MatchInfo_compare x y"
      by (rule MatchInfo_compare_asym)
    with True Cons show ?thesis
      by (auto simp: set_insertMatchInfo)
  next
    case False
    have "\<not> MatchInfo_compare z x" if "z \<in> set ys" for z
    proof
      assume "MatchInfo_compare z x"
      then have "MatchInfo_compare z y \<or> MatchInfo_compare y x"
        by (rule MatchInfo_compare_negtrans)
      with False that Cons.prems show False by auto
    qed
    with False Cons.prems show ?thesis by auto
  qed
qed

lemma insertion_sort_contract: "std_sort_contract insertion_sort"
proof -
  have "count_list (insertion_sort xs) z = count_list xs z" for xs z
    by (induction xs) (simp_all add: insertion_sort_def count_list_insertMatchInfo)
  moreover have "sorted_wrt (\<lambda>a b. \<not> MatchInfo_compare b a) (insertion_sort xs)" for xs
    by (induction xs) (simp_all add: insertion_sort_def sorted_insertMatchInfo)
  ultimately show ?thesis
    by (simp add: std_sort_contract_def)
qed


section \<open>Completion: the loops over commands and tokens\<close>


lemma groupsLoop_eq:
  "groupsLoop srt i t groups j (sw, mid) =
     (sw @ filter (\<lambda>m. pos m = Some 0) (groupBests srt i t groups j),
      mid @ filter (\<lambda>m. pos m \<noteq> Some 0 \<and> pos m \<noteq> None) (groupBests srt i t groups j))"
  by (induction groups arbitrary: j sw mid) (simp_all add: Let_def)

lemma cmdLoop_eq:
  "cmdLoop srt lim k t cmds i (alive, sw, mid, G) =
     (case cmdBests srt lim k t cmds i (alive, G) of
        Inl e \<Rightarrow> Inl e
      | Inr (alive', bests, G') \<Rightarrow>
          Inr (alive', sw @ filter (\<lambda>m. pos m = Some 0) bests,
               mid @ filter (\<lambda>m. pos m \<noteq> Some 0 \<and> pos m \<noteq> None) bests, G'))"
proof (induction cmds arbitrary: i alive sw mid G)
  case Nil
  show ?case by simp
next
  case (Cons c cmds)
  show ?case
    by (simp add: Let_def groupsLoop_eq Cons.IH split: sum.splits prod.splits)
qed

lemma cmdBests_error:
  "cmdBests srt lim k t cmds i st = Inl e \<Longrightarrow> e = Undefined_behaviour"
proof (induction cmds arbitrary: i st lim)
  case Nil
  then show ?case by (cases st) simp
next
  case (Cons c cmds)
  obtain alive G where st: "st = (alive, G)" by (cases st)
  from Cons.prems show ?case
    unfolding st
    by (auto simp: Let_def split: if_splits sum.splits dest: Cons.IH)
qed

lemma cmdBests_total:
  assumes "lim \<longrightarrow> arities_ok cmds"
  shows "\<exists>r. cmdBests srt lim k t cmds i st = Inr r"
  using assms
proof (induction cmds arbitrary: i st)
  case Nil
  then show ?case by (cases st) simp
next
  case (Cons c cmds)
  obtain alive G where st: "st = (alive, G)" by (cases st)
  from Cons.prems have rest: "lim \<longrightarrow> arities_ok cmds"
    and c: "lim \<longrightarrow> numFixTokens c \<le> length (generators c)"
    by (simp_all add: arities_ok_def)
  show ?case
  proof (cases "alive ! i \<and> k < (if lim then numFixTokens c else length (generators c))")
    case False
    with Cons.IH [OF rest, of "Suc i" "(alive, G)"] show ?thesis
      unfolding st by (auto simp: Let_def)
  next
    case True
    with c have k: "k < length (generators c)"
      by (auto split: if_splits)
    from Cons.IH [OF rest, of "Suc i" "(alive[i := False], G[i := (generators c ! k) ()])"]
    obtain r where "cmdBests srt lim k t cmds (Suc i)
        (alive[i := False], G[i := (generators c ! k) ()]) = Inr r"
      by blast
    with True k show ?thesis
      unfolding st by (cases r) (simp add: Let_def)
  qed
qed

lemma tokenLoop_Cons:
  "tokenLoop srt cmds lim sug (t # toks) k (alive, nt, logged) =
     (case cmdBests srt lim k t cmds 0 (alive, replicate (length cmds) []) of
        Inl e \<Rightarrow> Inl e
      | Inr (alive1, bests, G) \<Rightarrow>
          (let sw = filter (\<lambda>m. pos m = Some 0) bests;
               mid = filter (\<lambda>m. pos m \<noteq> Some 0 \<and> pos m \<noteq> None) bests
           in tokenLoop srt cmds lim sug toks (Suc k)
                (fst (bucketsLoop [sw, mid] k (alive1, nt)),
                 snd (bucketsLoop [sw, mid] k (alive1, nt)),
                 if sug then logged @ suggestions srt G sw mid else logged)))"
  by (simp add: cmdLoop_eq Let_def split: sum.splits prod.splits)

lemma tokenLoop_error:
  "tokenLoop srt cmds lim sug toks k st = Inl e \<Longrightarrow> e = Undefined_behaviour"
proof (induction toks arbitrary: k st)
  case Nil
  then show ?case by (cases st) simp
next
  case (Cons t toks)
  obtain alive nt logged where st: "st = (alive, nt, logged)" by (cases st)
  show ?case
  proof (cases "cmdBests srt lim k t cmds 0 (alive, replicate (length cmds) [])")
    case (Inl e')
    with Cons.prems have "e = e'"
      unfolding st tokenLoop_Cons by simp
    with Inl show ?thesis by (simp add: cmdBests_error)
  next
    case (Inr r)
    obtain alive1 bests G where "r = (alive1, bests, G)" by (cases r)
    with Inr Cons.prems show ?thesis
      unfolding st tokenLoop_Cons by (auto simp: Let_def dest: Cons.IH)
  qed
qed

lemma tokenLoop_total:
  assumes "lim \<longrightarrow> arities_ok cmds"
  shows "\<exists>r. tokenLoop srt cmds lim sug toks k st = Inr r"
proof (induction toks arbitrary: k st)
  case Nil
  then show ?case by (cases st) simp
next
  case (Cons t toks)
  obtain alive nt logged where st: "st = (alive, nt, logged)" by (cases st)
  from cmdBests_total [OF assms] obtain r where
    "cmdBests srt lim k t cmds 0 (alive, replicate (length cmds) []) = Inr r"
    by blast
  moreover obtain alive1 bests G where "r = (alive1, bests, G)" by (cases r)
  ultimately show ?case
    unfolding st tokenLoop_Cons using Cons.IH by (simp add: Let_def)
qed

text \<open>
  Claim C10. Called with \<open>overwriteInput = false\<close>, \<open>autoComplete\<close> leaves the input line as
  it is, for every line and every setting of the two other flags: when the call returns, the
  line is the input, and it returns for every registry when \<open>limitToFixed\<close> is off, and for
  every registry of the data model (no command with more fixed tokens than generators) when
  it is on. The only way not to return is the unchecked \<open>generators[tokenID]\<close> of a command
  with fewer generators than fixed tokens. Nothing is assumed of the sorting function.
\<close>

theorem autoComplete_no_overwrite:
  "(case autoComplete srt cmds input lim sug False of
      Inl e \<Rightarrow> e = Undefined_behaviour
    | Inr (line, logged) \<Rightarrow> line = input) \<and>
   ((lim \<longrightarrow> arities_ok cmds) \<longrightarrow>
      (\<exists>logged. autoComplete srt cmds input lim sug False = Inr (input, logged)))"
proof (cases "istream_tokens input = []")
  case True
  then show ?thesis by (simp add: autoComplete_def)
next
  case False
  show ?thesis
  proof (cases "completeTokens srt cmds lim sug (istream_tokens input)")
    case (Inl e)
    then have "e = Undefined_behaviour"
      unfolding completeTokens_def by (rule tokenLoop_error)
    moreover have "\<not> (lim \<longrightarrow> arities_ok cmds)"
    proof
      assume "lim \<longrightarrow> arities_ok cmds"
      then have "\<exists>r. completeTokens srt cmds lim sug (istream_tokens input) = Inr r"
        unfolding completeTokens_def by (rule tokenLoop_total)
      with Inl show False by simp
    qed
    ultimately show ?thesis
      using False Inl by (simp add: autoComplete_def)
  next
    case (Inr r)
    obtain alive nt logged where "r = (alive, nt, logged)" by (cases r)
    with False Inr show ?thesis by (simp add: autoComplete_def)
  qed
qed

text \<open>
  The line "lo ga" stays as typed, with the suggestions logged.
\<close>

theorem autoComplete_no_overwrite_witness:
  "arities_ok sample_commands \<and>
   (\<exists>logged. autoComplete insertion_sort sample_commands ''lo ga'' True True False =
      Inr (''lo ga'', logged))"
  using autoComplete_no_overwrite [where srt = insertion_sort and cmds = sample_commands
      and input = "''lo ga''" and lim = True and sug = True]
  by (simp add: arities_ok_def sample_commands_def)


section \<open>Completion: the two buckets\<close>


lemma makeMatchInfo_simps:
  "pos (makeMatchInfo i j t a) = string_find (lower a) t"
  "notMatchingCharCount (makeMatchInfo i j t a) = size_t_sub (length (lower a)) (length t)"
  "commandID (makeMatchInfo i j t a) = i"
  "groupID (makeMatchInfo i j t a) = j"
  "candidate (makeMatchInfo i j t a) = a"
  "candidateLowered (makeMatchInfo i j t a) = lower a"
  by (simp_all add: makeMatchInfo_def Let_def)

lemma groupBests_form:
  assumes "std_sort_contract srt"
  shows "m \<in> set (groupBests srt i t groups j) \<Longrightarrow> \<exists>a j'. m = makeMatchInfo i j' t a"
proof (induction groups arbitrary: j)
  case Nil
  then show ?case by simp
next
  case (Cons g groups)
  show ?case
  proof (cases "g = []")
    case True
    with Cons show ?thesis by simp
  next
    case False
    then have "hd (srt (map (makeMatchInfo i j t) g)) \<in> set (map (makeMatchInfo i j t) g)"
      by (intro hd_std_sort_in [OF assms]) simp
    with Cons False show ?thesis by auto
  qed
qed

lemma cmdBests_Cons_cases:
  assumes "cmdBests srt lim k t (c # cmds) i (alive, G) = Inr (alive', bests, G')"
  obtains (skip) "\<not> (alive ! i \<and> k < (if lim then numFixTokens c else length (generators c)))"
      "cmdBests srt lim k t cmds (Suc i) (alive, G) = Inr (alive', bests, G')"
    | (visit) rest where
      "alive ! i" "k < (if lim then numFixTokens c else length (generators c))"
      "k < length (generators c)"
      "cmdBests srt lim k t cmds (Suc i) (alive[i := False], G[i := (generators c ! k) ()]) =
         Inr (alive', rest, G')"
      "bests = groupBests srt i t ((generators c ! k) ()) 0 @ rest"
proof (cases "alive ! i \<and> k < (if lim then numFixTokens c else length (generators c))")
  case False
  with assms skip show ?thesis
    by (simp add: Let_def)
next
  case True
  with assms have k: "k < length (generators c)"
    by (simp add: Let_def split: if_splits)
  with True assms obtain rest where
    "cmdBests srt lim k t cmds (Suc i) (alive[i := False], G[i := (generators c ! k) ()]) =
       Inr (alive', rest, G')"
    "bests = groupBests srt i t ((generators c ! k) ()) 0 @ rest"
    by (auto simp: Let_def split: sum.splits)
  with True k visit show ?thesis
    by blast
qed

lemma cmdBests_skip:
  assumes "\<not> (alive ! i \<and> k < (if lim then numFixTokens c else length (generators c)))"
  shows "cmdBests srt lim k t (c # cmds) i (alive, G) =
         cmdBests srt lim k t cmds (Suc i) (alive, G)"
  using assms by (cases lim) (auto simp: Let_def)

lemma cmdBests_visit:
  assumes "alive ! i" and "k < (if lim then numFixTokens c else length (generators c))"
    and "k < length (generators c)"
  shows "cmdBests srt lim k t (c # cmds) i (alive, G) =
         (case cmdBests srt lim k t cmds (Suc i)
                 (alive[i := False], G[i := (generators c ! k) ()]) of
            Inl e \<Rightarrow> Inl e
          | Inr (alive', bests, G') \<Rightarrow>
              Inr (alive', groupBests srt i t ((generators c ! k) ()) 0 @ bests, G'))"
  using assms by (cases lim) (simp_all add: Let_def)

lemma cmdBests_form:
  assumes "std_sort_contract srt"
  shows "cmdBests srt lim k t cmds i st = Inr (alive', bests, G') \<Longrightarrow> m \<in> set bests \<Longrightarrow>
   \<exists>i' j' a. m = makeMatchInfo i' j' t a"
proof (induction cmds arbitrary: i st bests)
  case Nil
  then show ?case by (cases st) simp
next
  case (Cons c cmds)
  obtain alive G where st: "st = (alive, G)" by (cases st)
  from Cons.prems(1) [unfolded st] show ?case
  proof (cases rule: cmdBests_Cons_cases)
    case skip
    from Cons.IH [OF skip(2) Cons.prems(2)] show ?thesis .
  next
    case (visit rest)
    with Cons.prems(2) consider "m \<in> set (groupBests srt i t ((generators c ! k) ()) 0)"
      | "m \<in> set rest"
      by auto
    then show ?thesis
    proof cases
      case 1
      then show ?thesis by (blast dest: groupBests_form [OF assms])
    next
      case 2
      from Cons.IH [OF visit(4) 2] show ?thesis .
    qed
  qed
qed

lemma commonStartLength_le: "commonStartLength a b \<le> length a"
  by (induction a b rule: commonStartLength.induct) simp_all

lemma commonStartLength_prefix:
  "prefix t a \<Longrightarrow> prefix t b \<Longrightarrow> length t \<le> commonStartLength a b"
proof (induction t arbitrary: a b)
  case Nil
  then show ?case by simp
next
  case (Cons x t)
  from Cons.prems(1) obtain a' where a: "a = x # a'" "prefix t a'"
    by (cases a) simp_all
  from Cons.prems(2) obtain b' where b: "b = x # b'" "prefix t b'"
    by (cases b) simp_all
  from Cons.IH [OF a(2) b(2)] show ?case
    by (simp add: a(1) b(1))
qed

lemma bucketScan_common_le:
  "fst (snd (bucketScan ref ms (alive, c, l))) \<le> c"
proof (induction ms arbitrary: alive c l)
  case Nil
  show ?case by simp
next
  case (Cons m ms)
  have "fst (snd (bucketScan ref (m # ms) (alive, c, l))) \<le>
      min (commonStartLength ref (candidateLowered m)) c"
    using Cons.IH [of "alive[commandID m := True]"
        "min (commonStartLength ref (candidateLowered m)) c"
        "max l (length (candidateLowered m))"]
    by (simp del: min.bounded_iff)
  then show ?case by simp
qed

lemma bucketScan_common_ge:
  "n \<le> c \<Longrightarrow> \<forall>m \<in> set ms. n \<le> commonStartLength ref (candidateLowered m) \<Longrightarrow>
   n \<le> fst (snd (bucketScan ref ms (alive, c, l)))"
  by (induction ms arbitrary: alive c l) auto

lemma least_pos_zero:
  "pos x = Some 0 \<Longrightarrow> \<not> MatchInfo_compare x b \<Longrightarrow> pos b = Some 0"
  by (cases "pos b") (auto simp: MatchInfo_compare_def size_t_less_def split: if_splits)

text \<open>
  The best match of a group in which some alias starts with the token is a match at
  position 0; the best match of any other group is not.
\<close>

lemma best_match_prefix_iff:
  assumes "std_sort_contract srt" and "g \<noteq> []"
  shows "pos (hd (srt (map (makeMatchInfo i j t) g))) = Some 0 \<longleftrightarrow>
         (\<exists>a \<in> set g. prefix t (lower a))"
proof
  assume zero: "pos (hd (srt (map (makeMatchInfo i j t) g))) = Some 0"
  from assms(2) have "hd (srt (map (makeMatchInfo i j t) g)) \<in> set (map (makeMatchInfo i j t) g)"
    by (intro hd_std_sort_in [OF assms(1)]) simp
  then obtain a where "a \<in> set g" "hd (srt (map (makeMatchInfo i j t) g)) = makeMatchInfo i j t a"
    by auto
  with zero show "\<exists>a \<in> set g. prefix t (lower a)"
    by (auto simp: makeMatchInfo_simps string_find_zero_iff)
next
  assume "\<exists>a \<in> set g. prefix t (lower a)"
  then obtain a where a: "a \<in> set g" "prefix t (lower a)"
    by blast
  then have "makeMatchInfo i j t a \<in> set (map (makeMatchInfo i j t) g)"
    by simp
  then have "\<not> MatchInfo_compare (makeMatchInfo i j t a) (hd (srt (map (makeMatchInfo i j t) g)))"
    by (rule hd_std_sort_least [OF assms(1)])
  moreover from a(2) have "pos (makeMatchInfo i j t a) = Some 0"
    by (simp add: makeMatchInfo_simps string_find_zero_iff)
  ultimately show "pos (hd (srt (map (makeMatchInfo i j t) g))) = Some 0"
    by (rule least_pos_zero [rotated])
qed

lemma groupBests_prefix_hit:
  assumes "std_sort_contract srt"
  shows "g \<in> set groups \<Longrightarrow> a \<in> set g \<Longrightarrow> prefix t (lower a) \<Longrightarrow>
         \<exists>m \<in> set (groupBests srt i t groups j). pos m = Some 0"
proof (induction groups arbitrary: j)
  case Nil
  then show ?case by simp
next
  case (Cons x groups)
  show ?case
  proof (cases "g = x")
    case True
    with Cons.prems have "x \<noteq> []" "\<exists>a \<in> set x. prefix t (lower a)"
      by auto
    with best_match_prefix_iff [OF assms, of x i j t] show ?thesis
      by simp
  next
    case False
    with Cons.prems have "g \<in> set groups" by simp
    from Cons.IH [OF this Cons.prems(2,3), of "Suc j"] show ?thesis
      by auto
  qed
qed

lemma groupBests_prefixGroupsOnly:
  assumes "std_sort_contract srt"
  shows "groupBests srt i t
           (map (\<lambda>g. if \<exists>a \<in> set g. prefix t (lower a) then g else []) groups) j =
         filter (\<lambda>m. pos m = Some 0) (groupBests srt i t groups j)"
proof (induction groups arbitrary: j)
  case Nil
  show ?case by simp
next
  case (Cons g groups)
  show ?case
  proof (cases "g = []")
    case True
    with Cons show ?thesis by simp
  next
    case False
    from best_match_prefix_iff [OF assms False, of i j t] Cons False show ?thesis
      by auto
  qed
qed

lemma prefixGroupsOnly_simps:
  "numFixTokens (prefixGroupsOnly t k c) = numFixTokens c"
  "length (generators (prefixGroupsOnly t k c)) = length (generators c)"
  "k < length (generators c) \<Longrightarrow>
     (generators (prefixGroupsOnly t k c) ! k) () =
       map (\<lambda>g. if \<exists>a \<in> set g. prefix t (lower a) then g else []) ((generators c ! k) ())"
  by (simp_all add: prefixGroupsOnly_def)

lemma cmdBests_prefixGroupsOnly:
  assumes "std_sort_contract srt"
  shows "cmdBests srt lim k t cmds i (alive, G) = Inr (alive', bests, G') \<Longrightarrow>
         \<exists>G''. cmdBests srt lim k t (map (prefixGroupsOnly t k) cmds) i (alive, H) =
                  Inr (alive', filter (\<lambda>m. pos m = Some 0) bests, G'')"
proof (induction cmds arbitrary: i alive G H bests)
  case Nil
  then show ?case by simp
next
  case (Cons c cmds)
  from Cons.prems show ?case
  proof (cases rule: cmdBests_Cons_cases)
    case skip
    from skip(1) have "\<not> (alive ! i \<and> k < (if lim then numFixTokens (prefixGroupsOnly t k c)
        else length (generators (prefixGroupsOnly t k c))))"
      by (cases lim) (simp_all add: prefixGroupsOnly_simps)
    from cmdBests_skip [OF this] Cons.IH [OF skip(2), of H] show ?thesis
      by simp
  next
    case (visit rest)
    from Cons.IH [OF visit(4), of "H[i := (generators (prefixGroupsOnly t k c) ! k) ()]"]
    obtain G'' where "cmdBests srt lim k t (map (prefixGroupsOnly t k) cmds) (Suc i)
        (alive[i := False], H[i := (generators (prefixGroupsOnly t k c) ! k) ()]) =
        Inr (alive', filter (\<lambda>m. pos m = Some 0) rest, G'')"
      by blast
    moreover from visit(2,3) have
      "k < (if lim then numFixTokens (prefixGroupsOnly t k c)
            else length (generators (prefixGroupsOnly t k c)))"
      "k < length (generators (prefixGroupsOnly t k c))"
      by (cases lim; simp add: prefixGroupsOnly_simps)+
    note cmdBests_visit [OF visit(1) this]
    ultimately show ?thesis
      using visit(3,5)
      by (simp add: prefixGroupsOnly_simps groupBests_prefixGroupsOnly [OF assms])
  qed
qed

text \<open>
  The best matches of the groups of a command that the loop visits are among the best
  matches collected.
\<close>

lemma cmdBests_visited:
  "cmdBests srt lim k t cmds i (alive, G) = Inr (alive', bests, G') \<Longrightarrow> n < length cmds \<Longrightarrow>
   alive ! (i + n) \<Longrightarrow>
   k < (if lim then numFixTokens (cmds ! n) else length (generators (cmds ! n))) \<Longrightarrow>
   set (groupBests srt (i + n) t ((generators (cmds ! n) ! k) ()) 0) \<subseteq> set bests"
proof (induction cmds arbitrary: i alive G bests n)
  case Nil
  then show ?case by simp
next
  case (Cons c cmds)
  show ?case
  proof (cases n)
    case 0
    from Cons.prems(1) show ?thesis
    proof (cases rule: cmdBests_Cons_cases)
      case skip
      from Cons.prems(3,4) skip(1) show ?thesis
        unfolding 0 by (cases lim) simp_all
    next
      case (visit rest)
      with 0 show ?thesis by simp
    qed
  next
    case (Suc n')
    from Cons.prems(2-4) have n': "n' < length cmds"
      "k < (if lim then numFixTokens (cmds ! n') else length (generators (cmds ! n')))"
      and here: "alive ! (Suc i + n')"
      unfolding Suc by (cases lim; simp)+
    from Cons.prems(1) show ?thesis
    proof (cases rule: cmdBests_Cons_cases)
      case skip
      from Cons.IH [OF skip(2) n'(1) here n'(2)] Suc show ?thesis by simp
    next
      case (visit rest)
      from here have "alive[i := False] ! (Suc i + n')" by simp
      from Cons.IH [OF visit(4) n'(1) this n'(2)] visit(5) Suc show ?thesis by auto
    qed
  qed
qed

text \<open>
  The commands alive after a bucket is taken: those that were, and those of the entries of
  the bucket.
\<close>

lemma bucketScan_alive:
  "i < length alive \<Longrightarrow>
   fst (bucketScan ref ms (alive, c, l)) ! i \<longleftrightarrow> alive ! i \<or> (\<exists>m \<in> set ms. commandID m = i)"
proof (induction ms arbitrary: alive c l)
  case Nil
  show ?case by simp
next
  case (Cons m ms)
  from Cons.prems have "i < length (alive[commandID m := True])" by simp
  from Cons.IH [OF this, of "min (commonStartLength ref (candidateLowered m)) c"
      "max l (length (candidateLowered m))"]
  have "fst (bucketScan ref (m # ms) (alive, c, l)) ! i \<longleftrightarrow>
      alive[commandID m := True] ! i \<or> (\<exists>x \<in> set ms. commandID x = i)"
    by simp
  moreover have "alive[commandID m := True] ! i \<longleftrightarrow> alive ! i \<or> commandID m = i"
    using Cons.prems by (cases "commandID m = i") simp_all
  ultimately show ?case by auto
qed

lemma useBucket_alive:
  "i < length alive \<Longrightarrow>
   fst (useBucket ms k (alive, nt)) ! i \<longleftrightarrow> alive ! i \<or> (\<exists>m \<in> set ms. commandID m = i)"
proof -
  define ref where "ref = candidateLowered (hd ms)"
  obtain alive' common longest where
    scan: "bucketScan ref ms (alive, length ref, length ref) = (alive', common, longest)"
    by (cases "bucketScan ref ms (alive, length ref, length ref)")
  then have "fst (useBucket ms k (alive, nt)) = alive'"
    by (simp add: useBucket_def ref_def [symmetric] Let_def)
  moreover assume "i < length alive"
  from bucketScan_alive [OF this, of ref ms "length ref" "length ref"] scan
  have "alive' ! i \<longleftrightarrow> alive ! i \<or> (\<exists>m \<in> set ms. commandID m = i)"
    by simp
  ultimately show ?thesis by simp
qed

text \<open>
  Claim C2. At a token position, let some alias group of a command that the loop visits (a
  command alive, with a generator for the position) hold an alias that starts with the
  token \<open>tok\<close> of that position, lowered as the loop has it: the best candidate of that group
  is then a match at position 0. Then the prefix bucket \<open>matchInfosStartsWith\<close> is not
  empty; it holds candidates that start with the token, and the substring bucket holds
  candidates that do not. The round of that position gives the new tokens and the commands
  alive that the prefix bucket alone gives: the commands marked alive again are those with
  an entry in the prefix bucket. The round gives the same for the registry in which every
  group without an alias that starts with the token is emptied at that position: the
  candidates that match the token inside only have no part in the outcome. This holds for
  every sorting function that meets the contract of \<open>std::sort\<close>.
\<close>

theorem prefix_bucket_dominates:
  assumes "std_sort_contract srt"
    and "c < length cmds" and "alive ! c"
    and "tokenID < (if lim then numFixTokens (cmds ! c) else length (generators (cmds ! c)))"
    and "g \<in> set ((generators (cmds ! c) ! tokenID) ())" and "a \<in> set g"
    and "prefix tok (lower a)"
    and "cmdLoop srt lim tokenID tok cmds 0 (alive, [], [], replicate (length cmds) []) =
           Inr (alive1, startsWith, inMiddle, allGroups)"
  shows "startsWith \<noteq> [] \<and>
         (\<forall>m \<in> set startsWith. prefix tok (lower (candidate m))) \<and>
         (\<forall>m \<in> set inMiddle. \<not> prefix tok (lower (candidate m))) \<and>
         (\<forall>i < length alive1.
            fst (useBucket startsWith tokenID (alive1, newTokens)) ! i \<longleftrightarrow>
              alive1 ! i \<or> (\<exists>m \<in> set startsWith. commandID m = i)) \<and>
         map_sum id (\<lambda>(alive2, newTokens2, logged2). (alive2, newTokens2))
           (tokenLoop srt cmds lim sug [tok] tokenID (alive, newTokens, logged)) =
           Inr (useBucket startsWith tokenID (alive1, newTokens)) \<and>
         map_sum id (\<lambda>(alive2, newTokens2, logged2). (alive2, newTokens2))
           (tokenLoop srt (map (prefixGroupsOnly tok tokenID) cmds) lim sug [tok] tokenID
              (alive, newTokens, logged)) =
           Inr (useBucket startsWith tokenID (alive1, newTokens))"
proof -
  from assms(8) obtain bests where
    bests: "cmdBests srt lim tokenID tok cmds 0 (alive, replicate (length cmds) []) =
      Inr (alive1, bests, allGroups)"
    and sw: "startsWith = filter (\<lambda>m. pos m = Some 0) bests"
    and mid: "inMiddle = filter (\<lambda>m. pos m \<noteq> Some 0 \<and> pos m \<noteq> None) bests"
    by (auto simp: cmdLoop_eq split: sum.splits)
  have form: "pos m = Some 0 \<longleftrightarrow> prefix tok (lower (candidate m))" if "m \<in> set bests" for m
  proof -
    from cmdBests_form [OF assms(1) bests that] obtain i' j' a' where
      "m = makeMatchInfo i' j' tok a'"
      by blast
    then show ?thesis by (simp add: makeMatchInfo_simps string_find_zero_iff)
  qed
  from groupBests_prefix_hit [OF assms(1,5-7)] obtain m where
    "m \<in> set (groupBests srt c tok ((generators (cmds ! c) ! tokenID) ()) 0)" "pos m = Some 0"
    by blast
  moreover have "set (groupBests srt (0 + c) tok ((generators (cmds ! c) ! tokenID) ()) 0) \<subseteq>
      set bests"
    using bests assms(2) _ assms(4) by (rule cmdBests_visited) (simp add: assms(3))
  ultimately have ne: "startsWith \<noteq> []"
    unfolding sw by (auto simp: filter_empty_conv)
  have starts: "prefix tok (lower (candidate m))" if "m \<in> set startsWith" for m
    using that form [of m] by (simp add: sw)
  have inside: "\<not> prefix tok (lower (candidate m))" if "m \<in> set inMiddle" for m
    using that form [of m] by (simp add: mid)
  have round: "map_sum id (\<lambda>(alive2, newTokens2, logged2). (alive2, newTokens2))
      (tokenLoop srt cmds lim sug [tok] tokenID (alive, newTokens, logged)) =
      Inr (useBucket startsWith tokenID (alive1, newTokens))"
    using ne by (simp add: assms(8) split: prod.splits)
  from cmdBests_prefixGroupsOnly [OF assms(1) bests,
      of "replicate (length (map (prefixGroupsOnly tok tokenID) cmds)) []"]
  obtain G'' where "cmdBests srt lim tokenID tok (map (prefixGroupsOnly tok tokenID) cmds) 0
      (alive, replicate (length (map (prefixGroupsOnly tok tokenID) cmds)) []) =
      Inr (alive1, startsWith, G'')"
    unfolding sw by blast
  then have "cmdLoop srt lim tokenID tok (map (prefixGroupsOnly tok tokenID) cmds) 0
      (alive, [], [], replicate (length (map (prefixGroupsOnly tok tokenID) cmds)) []) =
      Inr (alive1, startsWith, [], G'')"
    by (simp add: cmdLoop_eq sw)
  then have "map_sum id (\<lambda>(alive2, newTokens2, logged2). (alive2, newTokens2))
      (tokenLoop srt (map (prefixGroupsOnly tok tokenID) cmds) lim sug [tok] tokenID
         (alive, newTokens, logged)) =
      Inr (useBucket startsWith tokenID (alive1, newTokens))"
    using ne by (simp split: prod.splits)
  with ne starts inside round show ?thesis
    by (simp add: useBucket_alive)
qed

text \<open>
  With the groups "upload"/"load" and "reload", the typed token "lo" starts the alias "load"
  of the first group and occurs inside "upload" and "reload": the token becomes "load", and
  it is marked exhausted although "upload" and "reload" are longer. With the group "reload"
  emptied the outcome is the same.
\<close>

theorem prefix_bucket_dominates_witness:
  "std_sort_contract insertion_sort \<and>
   cmdLoop insertion_sort False 0 ''lo'' reload_commands 0 ([True], [], [], [[]]) =
     Inr ([False], [makeMatchInfo 0 0 ''lo'' ''load''], [makeMatchInfo 0 1 ''lo'' ''reload''],
          [[[''upload'', ''load''], [''reload'']]]) \<and>
   map_sum id (\<lambda>(alive2, newTokens2, logged2). (alive2, newTokens2))
     (tokenLoop insertion_sort reload_commands False False [''lo''] 0
        ([True], [(''lo'', False)], [])) = Inr ([True], [(''load'', True)]) \<and>
   map_sum id (\<lambda>(alive2, newTokens2, logged2). (alive2, newTokens2))
     (tokenLoop insertion_sort (map (prefixGroupsOnly ''lo'' 0) reload_commands) False False
        [''lo''] 0 ([True], [(''lo'', False)], [])) = Inr ([True], [(''load'', True)])"
proof -
  have run: "cmdLoop insertion_sort False 0 ''lo'' reload_commands 0
      ([True], [], [], replicate (length reload_commands) []) =
     Inr ([False], [makeMatchInfo 0 0 ''lo'' ''load''], [makeMatchInfo 0 1 ''lo'' ''reload''],
          [[[''upload'', ''load''], [''reload'']]])"
    by (simp add: reload_commands_def makeMatchInfo_def lower_def tolower_def
        ascii_upper_lower_def insertion_sort_def MatchInfo_compare_def size_t_less_def
        Let_def size_t_sub_def)
  have use: "useBucket [makeMatchInfo 0 0 ''lo'' ''load''] 0 ([False], [(''lo'', False)]) =
      ([True], [(''load'', True)])"
    by (simp add: useBucket_def makeMatchInfo_def lower_def tolower_def
        ascii_upper_lower_def Let_def)
  have visited: "0 < length reload_commands" "[True] ! 0"
    "0 < (if False then numFixTokens (reload_commands ! 0)
          else length (generators (reload_commands ! 0)))"
    "[''upload'', ''load''] \<in> set ((generators (reload_commands ! 0) ! 0) ())"
    "''load'' \<in> set [''upload'', ''load'']" "prefix ''lo'' (lower ''load'')"
    by (simp_all add: reload_commands_def lower_def tolower_def ascii_upper_lower_def)
  note dominates = prefix_bucket_dominates [OF insertion_sort_contract visited run,
      where newTokens = "[(''lo'', False)]" and sug = False and logged = "[]", unfolded use]
  with run show ?thesis
    by (simp add: insertion_sort_contract reload_commands_def)
qed




lemma useBucket_entry:
  assumes "\<forall>m \<in> set ms. prefix tok (candidateLowered m)"
    and "ms \<noteq> []" and "k < length nt"
    and "length (candidate (hd ms)) = length (candidateLowered (hd ms))"
  shows "length tok \<le> length (fst (snd (useBucket ms k (alive, nt)) ! k))"
proof -
  define ref where "ref = candidateLowered (hd ms)"
  obtain alive' common longest where
    scan: "bucketScan ref ms (alive, length ref, length ref) = (alive', common, longest)"
    by (cases "bucketScan ref ms (alive, length ref, length ref)")
  from assms(1,2) have ref: "prefix tok ref"
    by (simp add: ref_def)
  then have "length tok \<le> length ref"
    by (rule prefix_length_le)
  moreover have "\<forall>m \<in> set ms. length tok \<le> commonStartLength ref (candidateLowered m)"
    using ref assms(1) by (simp add: commonStartLength_prefix)
  ultimately have "length tok \<le> fst (snd (bucketScan ref ms (alive, length ref, length ref)))"
    by (rule bucketScan_common_ge)
  with scan have ge: "length tok \<le> common" by simp
  from bucketScan_common_le [of ref ms alive "length ref" "length ref"] scan
  have "common \<le> length (candidate (hd ms))"
    by (simp add: ref_def assms(4))
  then have "length (take common (candidate (hd ms))) = common"
    by simp
  with ge assms(3) scan show ?thesis
    by (simp add: useBucket_def ref_def [symmetric] Let_def del: length_take)
qed

text \<open>
  Claim C5, as the code has it. At a token position where the prefix bucket is taken, the
  token written is at least as long as the token typed there, whatever sorting function
  meeting the contract of \<open>std::sort\<close> is used. (Where the substring bucket is taken, the
  token is cut to the common start of candidates that only contain the typed token, and
  that may be shorter than what was typed.)
\<close>

theorem prefix_bucket_not_shorter:
  assumes "std_sort_contract srt"
    and "cmdLoop srt lim tokenID (lower typed) cmds 0
           (alive, [], [], replicate (length cmds) []) =
             Inr (alive1, startsWith, inMiddle, allGroups)"
    and "startsWith \<noteq> []"
    and "tokenID < length newTokens"
  shows "length typed \<le>
           length (fst (snd (bucketsLoop [startsWith, inMiddle] tokenID (alive1, newTokens)) !
             tokenID))"
proof -
  from assms(2) obtain bests where
    bests: "cmdBests srt lim tokenID (lower typed) cmds 0 (alive, replicate (length cmds) []) =
      Inr (alive1, bests, allGroups)"
    and sw: "startsWith = filter (\<lambda>m. pos m = Some 0) bests"
    by (auto simp: cmdLoop_eq split: sum.splits)
  have form: "prefix (lower typed) (candidateLowered m) \<and>
      length (candidate m) = length (candidateLowered m)" if "m \<in> set startsWith" for m
  proof -
    from that sw have m: "m \<in> set bests" "pos m = Some 0" by simp_all
    from cmdBests_form [OF assms(1) bests m(1)] obtain i' j' a where
      "m = makeMatchInfo i' j' (lower typed) a"
      by blast
    with m(2) show ?thesis
      by (simp add: makeMatchInfo_simps string_find_zero_iff length_lower)
  qed
  from assms(3) have "hd startsWith \<in> set startsWith" by simp
  with form have "length (candidate (hd startsWith)) = length (candidateLowered (hd startsWith))"
    by blast
  with form assms(3,4) have "length (lower typed) \<le>
      length (fst (snd (useBucket startsWith tokenID (alive1, newTokens)) ! tokenID))"
    by (intro useBucket_entry) simp_all
  with assms(3) show ?thesis
    by (simp add: length_lower)
qed

text \<open>
  The typed token "LO" becomes "load".
\<close>

theorem prefix_bucket_not_shorter_witness:
  "std_sort_contract insertion_sort \<and>
   cmdLoop insertion_sort False 0 (lower ''LO'') upload_commands 0 ([True], [], [], [[]]) =
     Inr ([False], [makeMatchInfo 0 0 ''lo'' ''load''], [makeMatchInfo 0 1 ''lo'' ''upload''],
          [[[''load''], [''upload'']]]) \<and>
   length ''LO'' \<le> length (fst (snd (bucketsLoop
     [[makeMatchInfo 0 0 ''lo'' ''load''], [makeMatchInfo 0 1 ''lo'' ''upload'']] 0
     ([False], [(''LO'', False)])) ! 0))"
proof -
  have run: "cmdLoop insertion_sort False 0 (lower ''LO'') upload_commands 0
      ([True], [], [], replicate (length upload_commands) []) =
     Inr ([False], [makeMatchInfo 0 0 ''lo'' ''load''], [makeMatchInfo 0 1 ''lo'' ''upload''],
          [[[''load''], [''upload'']]])"
    by (simp add: upload_commands_def makeMatchInfo_def lower_def tolower_def
        ascii_upper_lower_def insertion_sort_def Let_def size_t_sub_def)
  from prefix_bucket_not_shorter [OF insertion_sort_contract run,
      where newTokens = "[(''LO'', False)]"] run
  show ?thesis
    by (simp add: upload_commands_def insertion_sort_contract)
qed

text \<open>
  With the groups "xab" and "xcab", the typed token "ab" occurs inside both and starts
  neither: the substring bucket is taken and the token becomes "x". Each group holds one
  alias, so that sorting leaves nothing open.
\<close>

theorem substring_bucket_shorter_counterexample:
  "autoComplete insertion_sort xab_commands ''ab'' False False True = Inr (''x'', []) \<and>
   length ''x'' < length ''ab''"
  by (simp add: autoComplete_def xab_commands_def istream_tokens_def isspace_def
      completeTokens_def lower_def tolower_def ascii_upper_lower_def insertion_sort_def
      makeMatchInfo_def MatchInfo_compare_def size_t_less_def size_t_sub_def useBucket_def
      Let_def)


section \<open>Completion of a completed line\<close>


lemma not_compare_pos:
  "\<not> MatchInfo_compare x b \<Longrightarrow> pos x = Some q \<Longrightarrow> \<exists>q' \<le> q. pos b = Some q'"
  by (cases "pos b") (auto simp: MatchInfo_compare_def size_t_less_def split: if_splits)

lemma least_is_exact:
  "pos m = Some 0 \<Longrightarrow> notMatchingCharCount m = 0 \<Longrightarrow> \<not> MatchInfo_compare m b \<Longrightarrow>
   pos b = Some 0 \<and> notMatchingCharCount b = 0"
  by (cases "pos b") (auto simp: MatchInfo_compare_def size_t_less_def split: if_splits)

text \<open>
  A group whose best match for the token \<open>t\<close> lowers to \<open>r\<close>, where \<open>r\<close> contains \<open>t\<close>: for
  the token \<open>r\<close> the best match is an alias that lowers to \<open>r\<close> too, now a match at
  position 0. It is the same alias when the group holds no other alias that lowers to \<open>r\<close>.
\<close>

lemma best_match_again:
  assumes "std_sort_contract srt" and "g \<noteq> []"
    and "candidateLowered (hd (srt (map (makeMatchInfo i j t) g))) = r"
    and "\<forall>a \<in> set g. fits_size_t a"
    and "exact \<longrightarrow> (\<forall>a \<in> set g. \<forall>b \<in> set g. lower a = lower b \<longrightarrow> a = b)"
  shows "\<exists>a \<in> set g. hd (srt (map (makeMatchInfo i j r) g)) = makeMatchInfo i j r a \<and>
           lower a = r \<and>
           (exact \<longrightarrow> a = candidate (hd (srt (map (makeMatchInfo i j t) g))))"
proof -
  from assms(2) have "hd (srt (map (makeMatchInfo i j t) g)) \<in> set (map (makeMatchInfo i j t) g)"
    by (intro hd_std_sort_in [OF assms(1)]) simp
  then obtain a1 where a1: "a1 \<in> set g"
    "hd (srt (map (makeMatchInfo i j t) g)) = makeMatchInfo i j t a1"
    by auto
  with assms(3) have low1: "lower a1 = r"
    by (simp add: makeMatchInfo_simps)
  from assms(2) have "hd (srt (map (makeMatchInfo i j r) g)) \<in> set (map (makeMatchInfo i j r) g)"
    by (intro hd_std_sort_in [OF assms(1)]) simp
  then obtain a2 where a2: "a2 \<in> set g"
    "hd (srt (map (makeMatchInfo i j r) g)) = makeMatchInfo i j r a2"
    by auto
  have least: "pos (makeMatchInfo i j r a1) = Some 0"
    "notMatchingCharCount (makeMatchInfo i j r a1) = 0"
    by (simp_all add: makeMatchInfo_simps low1 string_find_self size_t_sub_self)
  from a1(1) have "makeMatchInfo i j r a1 \<in> set (map (makeMatchInfo i j r) g)"
    by simp
  then have "\<not> MatchInfo_compare (makeMatchInfo i j r a1) (hd (srt (map (makeMatchInfo i j r) g)))"
    by (rule hd_std_sort_least [OF assms(1)])
  from least_is_exact [OF least this] a2(2)
  have pre: "prefix r (lower a2)" and gap: "size_t_sub (length (lower a2)) (length r) = 0"
    by (simp_all add: makeMatchInfo_simps string_find_zero_iff)
  from pre have le: "length r \<le> length (lower a2)"
    by (rule prefix_length_le)
  from a2(1) assms(4) have "fits_size_t a2"
    by blast
  then have "length (lower a2) < 2 ^ 64"
    unfolding fits_size_t_def length_lower .
  with gap le have "length (lower a2) = length r"
    by (rule size_t_sub_zero_eq)
  with pre have low2: "lower a2 = r"
    by (auto simp: prefix_def)
  have "a2 = a1" if exact
  proof -
    from that assms(5) have "\<forall>a \<in> set g. \<forall>b \<in> set g. lower a = lower b \<longrightarrow> a = b"
      by blast
    with a1(1) a2(1) low1 low2 show ?thesis
      by blast
  qed
  with a1(2) a2 low2 show ?thesis
    by (auto simp: makeMatchInfo_simps)
qed

text \<open>
  A group with a match at position 0 for the token \<open>r\<close>, where \<open>r\<close> contains \<open>t\<close> at
  position \<open>p\<close>: its best match for \<open>t\<close> is at a position up to \<open>p\<close>.
\<close>

lemma best_match_before:
  assumes "std_sort_contract srt" and "g \<noteq> []" and "string_find r t = Some p"
    and "pos (hd (srt (map (makeMatchInfo i j r) g))) = Some 0"
  shows "\<exists>q \<le> p. pos (hd (srt (map (makeMatchInfo i j t) g))) = Some q"
proof -
  from assms(2) have "hd (srt (map (makeMatchInfo i j r) g)) \<in>
      set (map (makeMatchInfo i j r) g)"
    by (intro hd_std_sort_in [OF assms(1)]) simp
  then obtain a where a: "a \<in> set g"
    "hd (srt (map (makeMatchInfo i j r) g)) = makeMatchInfo i j r a"
    by auto
  with assms(4) have "prefix r (lower a)"
    by (simp add: makeMatchInfo_simps string_find_zero_iff)
  from string_find_extend [OF assms(3) this] obtain q where
    q: "q \<le> p" "string_find (lower a) t = Some q"
    by blast
  from a(1) have "makeMatchInfo i j t a \<in> set (map (makeMatchInfo i j t) g)"
    by simp
  then have "\<not> MatchInfo_compare (makeMatchInfo i j t a)
      (hd (srt (map (makeMatchInfo i j t) g)))"
    by (rule hd_std_sort_least [OF assms(1)])
  from not_compare_pos [OF this, of q] q show ?thesis
    by (auto simp: makeMatchInfo_simps)
qed

lemma groupBests_again:
  assumes "std_sort_contract srt" and "string_find r t = Some p"
    and "\<forall>m \<in> set (groupBests srt i t groups j).
           (Q m \<longrightarrow> candidateLowered m = r) \<and> (\<forall>q. pos m = Some q \<and> q \<le> p \<longrightarrow> Q m)"
    and "\<forall>g \<in> set groups. \<forall>a \<in> set g. fits_size_t a"
    and "exact \<longrightarrow> (\<forall>g \<in> set groups. \<forall>a \<in> set g. \<forall>b \<in> set g. lower a = lower b \<longrightarrow> a = b)"
  shows "map (MatchInfo_core exact) (filter (\<lambda>m. pos m = Some 0) (groupBests srt i r groups j)) =
         map (MatchInfo_core exact) (filter Q (groupBests srt i t groups j))"
  using assms(3-5)
proof (induction groups arbitrary: j)
  case Nil
  show ?case by simp
next
  case (Cons g groups)
  from Cons.prems(2,3) have groups: "\<forall>g \<in> set groups. \<forall>a \<in> set g. fits_size_t a"
    "exact \<longrightarrow> (\<forall>g \<in> set groups. \<forall>a \<in> set g. \<forall>b \<in> set g. lower a = lower b \<longrightarrow> a = b)"
    and g: "\<forall>a \<in> set g. fits_size_t a"
    "exact \<longrightarrow> (\<forall>a \<in> set g. \<forall>b \<in> set g. lower a = lower b \<longrightarrow> a = b)"
    by simp_all
  show ?case
  proof (cases "g = []")
    case True
    with Cons.prems(1) Cons.IH [OF _ groups] show ?thesis by simp
  next
    case False
    define b1 where "b1 = hd (srt (map (makeMatchInfo i j t) g))"
    define b2 where "b2 = hd (srt (map (makeMatchInfo i j r) g))"
    from Cons.prems(1) False have b1: "Q b1 \<longrightarrow> candidateLowered b1 = r"
      "\<forall>q. pos b1 = Some q \<and> q \<le> p \<longrightarrow> Q b1"
      and rest: "\<forall>m \<in> set (groupBests srt i t groups (Suc j)).
           (Q m \<longrightarrow> candidateLowered m = r) \<and> (\<forall>q. pos m = Some q \<and> q \<le> p \<longrightarrow> Q m)"
      by (simp_all add: b1_def)
    note IH = Cons.IH [OF rest groups]
    show ?thesis
    proof (cases "Q b1")
      case True
      with b1(1) have low: "candidateLowered b1 = r" by simp
      from best_match_again [OF assms(1) False low [unfolded b1_def] g]
      obtain a where a: "b2 = makeMatchInfo i j r a" "lower a = r"
        "exact \<longrightarrow> a = candidate b1"
        unfolding b1_def b2_def by blast
      from False have "b1 \<in> set (map (makeMatchInfo i j t) g)"
        unfolding b1_def by (intro hd_std_sort_in [OF assms(1)]) simp
      then obtain a1 where "b1 = makeMatchInfo i j t a1" by auto
      with a low have "pos b2 = Some 0" "MatchInfo_core exact b2 = MatchInfo_core exact b1"
        by (simp_all add: makeMatchInfo_simps MatchInfo_core_def string_find_self)
      with True False IH show ?thesis
        by (simp add: b1_def [symmetric] b2_def [symmetric])
    next
      case notQ: False
      have "pos b2 \<noteq> Some 0"
      proof
        assume "pos b2 = Some 0"
        from best_match_before [OF assms(1) False assms(2) this [unfolded b2_def]]
        obtain q where "q \<le> p" "pos b1 = Some q"
          unfolding b1_def by blast
        with b1(2) notQ show False by blast
      qed
      with notQ False IH show ?thesis
        by (simp add: b1_def [symmetric] b2_def [symmetric])
    qed
  qed
qed

lemma alias_groups_Cons:
  "alias_groups (c # cmds) = (\<Union>gen \<in> set (generators c). set (gen ())) \<union> alias_groups cmds"
  by (simp add: alias_groups_def)

lemma cmdBests_again:
  assumes "std_sort_contract srt" and "string_find r t = Some p"
    and "cmdBests srt lim k t cmds i st = Inr (alive', bests, G')"
    and "\<forall>m \<in> set bests.
           (Q m \<longrightarrow> candidateLowered m = r) \<and> (\<forall>q. pos m = Some q \<and> q \<le> p \<longrightarrow> Q m)"
    and "aliases_fit_size_t cmds" and "exact \<longrightarrow> no_case_variants cmds"
  shows "\<exists>bests'. cmdBests srt lim k r cmds i st = Inr (alive', bests', G') \<and>
           map (MatchInfo_core exact) (filter (\<lambda>m. pos m = Some 0) bests') =
           map (MatchInfo_core exact) (filter Q bests)"
  using assms(3-6)
proof (induction cmds arbitrary: i st bests)
  case Nil
  then show ?case by (cases st) auto
next
  case (Cons c cmds)
  obtain alive G where st: "st = (alive, G)" by (cases st)
  have sub: "alias_groups cmds \<subseteq> alias_groups (c # cmds)"
    by (auto simp: alias_groups_Cons)
  from Cons.prems(3) sub have cmds1: "aliases_fit_size_t cmds"
    unfolding aliases_fit_size_t_def by blast
  from Cons.prems(4) sub have cmds2: "exact \<longrightarrow> no_case_variants cmds"
    unfolding no_case_variants_def by blast
  note cmds = cmds1 cmds2
  from Cons.prems(1) [unfolded st] show ?case
  proof (cases rule: cmdBests_Cons_cases)
    case skip
    from Cons.IH [OF skip(2) Cons.prems(2) cmds] show ?thesis
      unfolding st cmdBests_skip [OF skip(1)] .
  next
    case (visit rest)
    from Cons.prems(2) visit(5) have
      here: "\<forall>m \<in> set (groupBests srt i t ((generators c ! k) ()) 0).
           (Q m \<longrightarrow> candidateLowered m = r) \<and> (\<forall>q. pos m = Some q \<and> q \<le> p \<longrightarrow> Q m)"
      and there: "\<forall>m \<in> set rest.
           (Q m \<longrightarrow> candidateLowered m = r) \<and> (\<forall>q. pos m = Some q \<and> q \<le> p \<longrightarrow> Q m)"
      by simp_all
    from visit(3) have "generators c ! k \<in> set (generators c)"
      by simp
    then have "set ((generators c ! k) ()) \<subseteq> alias_groups (c # cmds)"
      unfolding alias_groups_Cons by blast
    then have here_sub: "g \<in> alias_groups (c # cmds)" if "g \<in> set ((generators c ! k) ())" for g
      using that by blast
    from Cons.prems(3) here_sub have
      sizes: "\<forall>g \<in> set ((generators c ! k) ()). \<forall>a \<in> set g. fits_size_t a"
      unfolding aliases_fit_size_t_def by blast
    from Cons.prems(4) here_sub have
      variants: "exact \<longrightarrow> (\<forall>g \<in> set ((generators c ! k) ()).
        \<forall>a \<in> set g. \<forall>b \<in> set g. lower a = lower b \<longrightarrow> a = b)"
      unfolding no_case_variants_def by blast
    from Cons.IH [OF visit(4) there cmds] obtain rest' where
      rest': "cmdBests srt lim k r cmds (Suc i) (alive[i := False], G[i := (generators c ! k) ()]) =
        Inr (alive', rest', G')"
      "map (MatchInfo_core exact) (filter (\<lambda>m. pos m = Some 0) rest') =
       map (MatchInfo_core exact) (filter Q rest)"
      by blast
    from cmdBests_visit [OF visit(1-3)] rest'(1) have
      "cmdBests srt lim k r (c # cmds) i (alive, G) =
         Inr (alive', groupBests srt i r ((generators c ! k) ()) 0 @ rest', G')"
      by simp
    moreover have "map (MatchInfo_core exact) (filter (\<lambda>m. pos m = Some 0)
        (groupBests srt i r ((generators c ! k) ()) 0 @ rest')) =
        map (MatchInfo_core exact) (filter Q bests)"
      using groupBests_again [OF assms(1,2) here sizes variants] rest'(2) visit(5) by simp
    ultimately show ?thesis
      unfolding st by blast
  qed
qed



lemma bucketScan_core:
  "map (MatchInfo_core exact) ms = map (MatchInfo_core exact) ms' \<Longrightarrow>
   bucketScan ref ms st = bucketScan ref ms' st"
proof (induction ms arbitrary: ms' st)
  case Nil
  then show ?case by simp
next
  case (Cons m ms)
  then obtain m' ms'' where ms': "ms' = m' # ms''"
    "MatchInfo_core exact m = MatchInfo_core exact m'"
    "map (MatchInfo_core exact) ms = map (MatchInfo_core exact) ms''"
    by (cases ms') auto
  obtain alive c l where st: "st = (alive, c, l)" by (cases st)
  from ms'(2) Cons.IH [OF ms'(3)] show ?case
    unfolding ms'(1) st by (simp add: MatchInfo_core_def)
qed

lemma lower_take: "lower (take n s) = take n (lower s)"
  by (simp add: lower_def take_map)

text \<open>
  Two buckets with the same commands and the same lowered candidates give the same commands
  alive and the same new token up to the case of its letters; the same new token when the
  candidates are the same.
\<close>

lemma bucketOutcome_core:
  assumes "map (MatchInfo_core exact) ms = map (MatchInfo_core exact) ms'"
    and "\<forall>m \<in> set ms. candidateLowered m = lower (candidate m)"
    and "\<forall>m \<in> set ms'. candidateLowered m = lower (candidate m)"
  shows "fst (bucketOutcome ms alive) = fst (bucketOutcome ms' alive)"
    and "rel_option (token_again exact) (snd (bucketOutcome ms alive))
           (snd (bucketOutcome ms' alive))"
proof -
  have "fst (bucketOutcome ms alive) = fst (bucketOutcome ms' alive) \<and>
      rel_option (token_again exact) (snd (bucketOutcome ms alive))
        (snd (bucketOutcome ms' alive))"
  proof (cases ms)
    case Nil
    with assms(1) have "ms' = []" by simp
    moreover have "rel_option (token_again exact) x x" for x
      by (cases x) (simp_all add: token_again_def)
    ultimately show ?thesis
      using Nil by simp
  next
    case (Cons m rest)
    with assms(1) obtain m' rest' where ms': "ms' = m' # rest'"
      "MatchInfo_core exact m = MatchInfo_core exact m'"
      by (cases ms') auto
    from Cons ms'(1) assms(2,3) have low: "candidateLowered m = lower (candidate m)"
      "candidateLowered m' = lower (candidate m')"
      by simp_all
    from ms'(2) have same: "candidateLowered m = candidateLowered m'"
      "exact \<longrightarrow> candidate m = candidate m'"
      by (simp_all add: MatchInfo_core_def split: if_splits)
    from low same(1) have len: "length (candidate m) = length (candidate m')"
      by (metis length_lower)
    define ref where "ref = candidateLowered m"
    obtain alive1 common longest where
      scan: "bucketScan ref ms (alive, length ref, length ref) = (alive1, common, longest)"
      by (cases "bucketScan ref ms (alive, length ref, length ref)")
    then have scan': "bucketScan ref ms' (alive, length ref, length ref) =
        (alive1, common, longest)"
      using bucketScan_core [OF assms(1)] by simp
    have out: "bucketOutcome ms alive =
        (alive1, if common \<noteq> 0 then Some (take common (candidate m),
           longest = length (take common (candidate m))) else None)"
      using scan by (simp add: bucketOutcome_def Cons ref_def)
    have out': "bucketOutcome ms' alive =
        (alive1, if common \<noteq> 0 then Some (take common (candidate m'),
           longest = length (take common (candidate m'))) else None)"
      using scan' by (simp add: bucketOutcome_def ms'(1) ref_def same(1))
    have "lower (take common (candidate m')) = lower (take common (candidate m))"
      using low same(1) by (simp add: lower_take)
    with len same(2) show ?thesis
      unfolding out out' by (simp add: token_again_def)
  qed
  then show "fst (bucketOutcome ms alive) = fst (bucketOutcome ms' alive)"
    and "rel_option (token_again exact) (snd (bucketOutcome ms alive))
           (snd (bucketOutcome ms' alive))"
    by simp_all
qed

lemma useBucket_outcome:
  "useBucket ms k (alive, nt) =
     (fst (bucketOutcome ms alive),
      case snd (bucketOutcome ms alive) of None \<Rightarrow> nt | Some e \<Rightarrow> nt[k := e])"
  by (simp add: useBucket_def bucketOutcome_def Let_def split: prod.splits)

lemma bucketScan_longest_ge:
  "l \<le> snd (snd (bucketScan ref ms (alive, c, l)))"
proof (induction ms arbitrary: alive c l)
  case Nil
  show ?case by simp
next
  case (Cons m ms)
  have "max l (length (candidateLowered m)) \<le>
      snd (snd (bucketScan ref (m # ms) (alive, c, l)))"
    using Cons.IH [of "max l (length (candidateLowered m))" "alive[commandID m := True]"
        "min (commonStartLength ref (candidateLowered m)) c"]
    by (simp del: max.bounded_iff)
  then show ?case by simp
qed

lemma bucketScan_longest_each:
  "m \<in> set ms \<Longrightarrow> length (candidateLowered m) \<le> snd (snd (bucketScan ref ms (alive, c, l)))"
proof (induction ms arbitrary: alive c l)
  case Nil
  then show ?case by simp
next
  case (Cons x ms)
  show ?case
  proof (cases "m = x")
    case True
    have "max l (length (candidateLowered x)) \<le>
        snd (snd (bucketScan ref (x # ms) (alive, c, l)))"
      using bucketScan_longest_ge [of "max l (length (candidateLowered x))" ref ms
          "alive[commandID x := True]" "min (commonStartLength ref (candidateLowered x)) c"]
      by (simp del: max.bounded_iff)
    with True show ?thesis by simp
  next
    case False
    with Cons.prems have "m \<in> set ms" by simp
    from Cons.IH [OF this] show ?thesis by simp
  qed
qed

lemma bucketScan_common_each:
  "m \<in> set ms \<Longrightarrow>
   fst (snd (bucketScan ref ms (alive, c, l))) \<le> commonStartLength ref (candidateLowered m)"
proof (induction ms arbitrary: alive c l)
  case Nil
  then show ?case by simp
next
  case (Cons x ms)
  show ?case
  proof (cases "m = x")
    case True
    have "fst (snd (bucketScan ref (x # ms) (alive, c, l))) \<le>
        min (commonStartLength ref (candidateLowered x)) c"
      using bucketScan_common_le [of ref ms "alive[commandID x := True]"
          "min (commonStartLength ref (candidateLowered x)) c"
          "max l (length (candidateLowered x))"]
      by (simp del: min.bounded_iff)
    with True show ?thesis by simp
  next
    case False
    with Cons.prems have "m \<in> set ms" by simp
    from Cons.IH [OF this] show ?thesis by simp
  qed
qed

lemma commonStartLength_le2: "commonStartLength a b \<le> length b"
  by (induction a b rule: commonStartLength.induct) simp_all

lemma commonStartLength_full:
  "commonStartLength a b = length a \<Longrightarrow> length b = length a \<Longrightarrow> lower a = lower b"
proof (induction a b rule: commonStartLength.induct)
  case (1 x xs y ys)
  then show ?case by (simp add: lower_def split: if_splits)
qed simp_all

lemma bucketOutcome_exhausted:
  assumes "bucketOutcome ms alive = (alive', Some (txt, True))"
    and "ms \<noteq> []"
    and "\<forall>m \<in> set ms. candidateLowered m = lower (candidate m)"
  shows "txt = candidate (hd ms)" and "\<forall>m \<in> set ms. candidateLowered m = lower txt"
proof -
  define ref where "ref = candidateLowered (hd ms)"
  obtain alive1 common longest where
    scan: "bucketScan ref ms (alive, length ref, length ref) = (alive1, common, longest)"
    by (cases "bucketScan ref ms (alive, length ref, length ref)")
  from assms(2,3) have ref: "ref = lower (candidate (hd ms))"
    by (simp add: ref_def)
  then have len: "length (candidate (hd ms)) = length ref"
    by (simp add: length_lower)
  from assms(1) scan have out: "common \<noteq> 0" "txt = take common (candidate (hd ms))"
    "longest = length (take common (candidate (hd ms)))"
    by (auto simp: bucketOutcome_def ref_def [symmetric] Let_def split: if_splits)
  from bucketScan_common_le [of ref ms alive "length ref" "length ref"] scan
  have le: "common \<le> length ref" by simp
  with out(3) len have longest: "longest = common" by simp
  from bucketScan_longest_ge [of "length ref" ref ms alive "length ref"] scan
  have "length ref \<le> longest" by simp
  with longest le have common: "common = length ref" by simp
  with out(2) len show first: "txt = candidate (hd ms)" by simp
  show "\<forall>m \<in> set ms. candidateLowered m = lower txt"
  proof
    fix m assume m: "m \<in> set ms"
    from bucketScan_longest_each [OF m, of ref alive "length ref" "length ref"] scan longest common
    have l1: "length (candidateLowered m) \<le> length ref" by simp
    from bucketScan_common_each [OF m, of ref alive "length ref" "length ref"] scan common
    have l2: "length ref \<le> commonStartLength ref (candidateLowered m)" by simp
    from l2 commonStartLength_le2 [of ref "candidateLowered m"] l1
    have l3: "length (candidateLowered m) = length ref" by simp
    from l2 commonStartLength_le [of ref "candidateLowered m"]
    have "commonStartLength ref (candidateLowered m) = length ref" by simp
    from commonStartLength_full [OF this l3] have "lower ref = lower (candidateLowered m)" .
    moreover from assms(3) m have "candidateLowered m = lower (candidate m)" by simp
    ultimately have "candidateLowered m = ref"
      by (simp add: ref lower_idem)
    with first ref show "candidateLowered m = lower txt" by simp
  qed
qed

lemma bucketOutcome_not_empty:
  assumes "bucketOutcome ms alive = (alive', Some (txt, fl))"
    and "length (candidate (hd ms)) = length (candidateLowered (hd ms))"
  shows "txt \<noteq> []"
proof -
  define ref where "ref = candidateLowered (hd ms)"
  obtain alive1 common longest where
    scan: "bucketScan ref ms (alive, length ref, length ref) = (alive1, common, longest)"
    by (cases "bucketScan ref ms (alive, length ref, length ref)")
  from assms(1) scan have out: "common \<noteq> 0" "txt = take common (candidate (hd ms))"
    by (auto simp: bucketOutcome_def ref_def [symmetric] Let_def split: if_splits)
  from bucketScan_common_le [of ref ms alive "length ref" "length ref"] scan
  have "common \<le> length ref" by simp
  with out assms(2) show ?thesis
    by (auto simp: ref_def)
qed


lemma stepOutcome_eq:
  assumes "cmdBests srt lim k t cmds 0 (alive, replicate (length cmds) []) = Inr (alive1, bests, G)"
  shows "stepOutcome srt cmds lim k t alive =
     Inr (if filter (\<lambda>m. pos m = Some 0) bests \<noteq> []
          then bucketOutcome (filter (\<lambda>m. pos m = Some 0) bests) alive1
          else if filter (\<lambda>m. pos m \<noteq> Some 0 \<and> pos m \<noteq> None) bests \<noteq> []
          then bucketOutcome (filter (\<lambda>m. pos m \<noteq> Some 0 \<and> pos m \<noteq> None) bests) alive1
          else (alive1, None))"
  unfolding stepOutcome_def assms by (simp only: sum.case prod.case Let_def)

lemma stepOutcome_Inr:
  assumes "stepOutcome srt cmds lim k t alive = Inr out"
  obtains alive1 bests G where
    "cmdBests srt lim k t cmds 0 (alive, replicate (length cmds) []) = Inr (alive1, bests, G)"
proof (cases "cmdBests srt lim k t cmds 0 (alive, replicate (length cmds) [])")
  case (Inl e)
  with assms show ?thesis by (simp add: stepOutcome_def)
next
  case (Inr res)
  then show ?thesis by (cases res) (auto intro: that)
qed

text \<open>
  The bucket taken in a round, \<open>filter Q bests\<close>, has given the token \<open>txt\<close> and marked it
  exhausted. Then the round on the token \<open>lower txt\<close> has, in the prefix bucket, entries of
  the same commands with the same lowered candidates.
\<close>

lemma exhausted_bucket_again:
  assumes contract: "std_sort_contract srt"
    and bests: "cmdBests srt lim k t cmds 0 (alive, replicate (length cmds) []) =
      Inr (alive1, bests, G)"
    and ne: "filter Q bests \<noteq> []"
    and out: "bucketOutcome (filter Q bests) alive1 = (alive', Some (txt, True))"
    and some: "\<forall>m \<in> set bests. Q m \<longrightarrow> pos m \<noteq> None"
    and below: "\<forall>m \<in> set bests. \<forall>p q. pos (hd (filter Q bests)) = Some p \<and>
        pos m = Some q \<and> q \<le> p \<longrightarrow> Q m"
    and sizes: "aliases_fit_size_t cmds"
    and variants: "exact \<longrightarrow> no_case_variants cmds"
  shows "\<exists>bests'. cmdBests srt lim k (lower txt) cmds 0 (alive, replicate (length cmds) []) =
      Inr (alive1, bests', G) \<and>
      map (MatchInfo_core exact) (filter (\<lambda>m. pos m = Some 0) bests') =
      map (MatchInfo_core exact) (filter Q bests)"
proof -
  define B where "B = filter Q bests"
  define r where "r = lower txt"
  have form: "\<exists>i' j' a. m = makeMatchInfo i' j' t a" if "m \<in> set bests" for m
    using cmdBests_form [OF contract bests that] .
  have lowered: "candidateLowered m = lower (candidate m)" if "m \<in> set bests" for m
  proof -
    from form [OF that] obtain i' j' a where "m = makeMatchInfo i' j' t a" by blast
    then show ?thesis by (simp add: makeMatchInfo_simps)
  qed
  have "\<forall>m \<in> set B. candidateLowered m = lower (candidate m)"
    using lowered by (simp add: B_def)
  from bucketOutcome_exhausted [OF out [folded B_def] ne [folded B_def] this]
  have first: "txt = candidate (hd B)" and same: "\<forall>m \<in> set B. candidateLowered m = r"
    by (simp_all add: r_def)
  from ne have "hd (filter Q bests) \<in> set (filter Q bests)"
    by (rule hd_in_set)
  then have hdB: "hd B \<in> set bests" "Q (hd B)"
    unfolding B_def by simp_all
  with some obtain p where p: "pos (hd B) = Some p"
    by blast
  from form [OF hdB(1)] obtain i' j' a where "hd B = makeMatchInfo i' j' t a"
    by blast
  with p first have find: "string_find r t = Some p"
    by (simp add: makeMatchInfo_simps r_def)
  have "(Q m \<longrightarrow> candidateLowered m = r) \<and> (\<forall>q. pos m = Some q \<and> q \<le> p \<longrightarrow> Q m)"
    if m: "m \<in> set bests" for m
  proof (intro conjI impI allI)
    assume "Q m"
    with m have "m \<in> set B" by (simp add: B_def)
    with same show "candidateLowered m = r" by blast
  next
    fix q assume "pos m = Some q \<and> q \<le> p"
    with below m p [unfolded B_def] show "Q m" by blast
  qed
  then have "\<forall>m \<in> set bests.
      (Q m \<longrightarrow> candidateLowered m = r) \<and> (\<forall>q. pos m = Some q \<and> q \<le> p \<longrightarrow> Q m)"
    by blast
  from cmdBests_again [OF contract find bests this sizes variants] show ?thesis
    unfolding r_def .
qed

text \<open>
  A token that its round has rewritten and marked exhausted is rewritten to itself, up to
  the case of its letters, by the same round on the rewritten token; it is marked exhausted
  again and the same commands are alive afterwards. With no two aliases of a group equal up
  to case, the token is rewritten to itself.
\<close>

lemma stepOutcome_exhausted:
  assumes "std_sort_contract srt"
    and "aliases_fit_size_t cmds" and "exact \<longrightarrow> no_case_variants cmds"
    and "stepOutcome srt cmds lim k t alive = Inr (alive', Some (txt, True))"
  shows "\<exists>txt2. stepOutcome srt cmds lim k (lower txt) alive = Inr (alive', Some (txt2, True)) \<and>
           token_again exact (txt, True) (txt2, True)"
proof -
  from assms(4) obtain alive1 bests G where
    bests: "cmdBests srt lim k t cmds 0 (alive, replicate (length cmds) []) =
      Inr (alive1, bests, G)"
    by (rule stepOutcome_Inr)
  define sw where "sw = filter (\<lambda>m. pos m = Some 0) bests"
  define mid where "mid = filter (\<lambda>m. pos m \<noteq> Some 0 \<and> pos m \<noteq> None) bests"
  from assms(4) have out: "(if sw \<noteq> [] then bucketOutcome sw alive1
      else if mid \<noteq> [] then bucketOutcome mid alive1 else (alive1, None)) =
      (alive', Some (txt, True))"
    unfolding stepOutcome_eq [OF bests] sw_def mid_def by (simp only: sum.inject)
  have again: "\<exists>txt2. stepOutcome srt cmds lim k (lower txt) alive =
        Inr (alive', Some (txt2, True)) \<and> token_again exact (txt, True) (txt2, True)"
    if ne: "filter Q bests \<noteq> []"
      and res: "bucketOutcome (filter Q bests) alive1 = (alive', Some (txt, True))"
      and some: "\<forall>m \<in> set bests. Q m \<longrightarrow> pos m \<noteq> None"
      and below: "\<forall>m \<in> set bests. \<forall>p q. pos (hd (filter Q bests)) = Some p \<and>
        pos m = Some q \<and> q \<le> p \<longrightarrow> Q m"
    for Q
  proof -
    from exhausted_bucket_again [OF assms(1) bests ne res some below assms(2,3)]
    obtain bests' where
      bests': "cmdBests srt lim k (lower txt) cmds 0 (alive, replicate (length cmds) []) =
        Inr (alive1, bests', G)"
      and core: "map (MatchInfo_core exact) (filter (\<lambda>m. pos m = Some 0) bests') =
        map (MatchInfo_core exact) (filter Q bests)"
      by blast
    from core ne have ne': "filter (\<lambda>m. pos m = Some 0) bests' \<noteq> []"
      by (metis map_is_Nil_conv)
    have low: "\<forall>m \<in> set (filter Q bests). candidateLowered m = lower (candidate m)"
    proof
      fix m assume "m \<in> set (filter Q bests)"
      then have "m \<in> set bests" by simp
      from cmdBests_form [OF assms(1) bests this] obtain i' j' a where
        "m = makeMatchInfo i' j' t a"
        by blast
      then show "candidateLowered m = lower (candidate m)"
        by (simp add: makeMatchInfo_simps)
    qed
    have low': "\<forall>m \<in> set (filter (\<lambda>m. pos m = Some 0) bests').
        candidateLowered m = lower (candidate m)"
    proof
      fix m assume "m \<in> set (filter (\<lambda>m. pos m = Some 0) bests')"
      then have "m \<in> set bests'" by simp
      from cmdBests_form [OF assms(1) bests' this] obtain i' j' a where
        "m = makeMatchInfo i' j' (lower txt) a"
        by blast
      then show "candidateLowered m = lower (candidate m)"
        by (simp add: makeMatchInfo_simps)
    qed
    from bucketOutcome_core [OF core [symmetric] low low', of alive1] res
    have "fst (bucketOutcome (filter (\<lambda>m. pos m = Some 0) bests') alive1) = alive'"
      and "rel_option (token_again exact) (Some (txt, True))
        (snd (bucketOutcome (filter (\<lambda>m. pos m = Some 0) bests') alive1))"
      by simp_all
    then obtain e where e: "bucketOutcome (filter (\<lambda>m. pos m = Some 0) bests') alive1 =
        (alive', Some e)" "token_again exact (txt, True) e"
      by (cases "bucketOutcome (filter (\<lambda>m. pos m = Some 0) bests') alive1")
        (auto simp: option_rel_Some1)
    from e(2) obtain txt2 where "e = (txt2, True)"
      by (cases e) (simp add: token_again_def)
    with e ne' show ?thesis
      unfolding stepOutcome_eq [OF bests'] by auto
  qed
  show ?thesis
  proof (cases "sw \<noteq> []")
    case True
    with out have res: "bucketOutcome sw alive1 = (alive', Some (txt, True))"
      by simp
    from True have "hd sw \<in> set sw" by simp
    then have zero: "pos (hd sw) = Some 0" by (simp add: sw_def)
    show ?thesis
    proof (rule again [of "\<lambda>m. pos m = Some 0"])
      show "filter (\<lambda>m. pos m = Some 0) bests \<noteq> []"
        using True unfolding sw_def .
      show "bucketOutcome (filter (\<lambda>m. pos m = Some 0) bests) alive1 = (alive', Some (txt, True))"
        using res unfolding sw_def .
      show "\<forall>m \<in> set bests. pos m = Some 0 \<longrightarrow> pos m \<noteq> None"
        by simp
      show "\<forall>m \<in> set bests. \<forall>p q.
          pos (hd (filter (\<lambda>m. pos m = Some 0) bests)) = Some p \<and> pos m = Some q \<and> q \<le> p \<longrightarrow>
          pos m = Some 0"
        using zero by (simp add: sw_def)
    qed
  next
    case False
    then have sw: "sw = []" by simp
    then have none: "pos m \<noteq> Some 0" if "m \<in> set bests" for m
      using that by (simp add: sw_def filter_empty_conv)
    have mid: "mid \<noteq> []"
    proof
      assume "mid = []"
      with out sw show False by simp
    qed
    with out sw have res: "bucketOutcome mid alive1 = (alive', Some (txt, True))"
      by simp
    show ?thesis
    proof (rule again [of "\<lambda>m. pos m \<noteq> Some 0 \<and> pos m \<noteq> None"])
      show "filter (\<lambda>m. pos m \<noteq> Some 0 \<and> pos m \<noteq> None) bests \<noteq> []"
        using mid unfolding mid_def .
      show "bucketOutcome (filter (\<lambda>m. pos m \<noteq> Some 0 \<and> pos m \<noteq> None) bests) alive1 =
          (alive', Some (txt, True))"
        using res unfolding mid_def .
      show "\<forall>m \<in> set bests. pos m \<noteq> Some 0 \<and> pos m \<noteq> None \<longrightarrow> pos m \<noteq> None"
        by blast
      show "\<forall>m \<in> set bests. \<forall>p q.
          pos (hd (filter (\<lambda>m. pos m \<noteq> Some 0 \<and> pos m \<noteq> None) bests)) = Some p \<and>
          pos m = Some q \<and> q \<le> p \<longrightarrow> pos m \<noteq> Some 0 \<and> pos m \<noteq> None"
      proof (intro ballI allI impI)
        fix m p q
        assume m: "m \<in> set bests"
          and "pos (hd (filter (\<lambda>m. pos m \<noteq> Some 0 \<and> pos m \<noteq> None) bests)) = Some p \<and>
            pos m = Some q \<and> q \<le> p"
        then have "pos m = Some q" by blast
        with none [OF m] show "pos m \<noteq> Some 0 \<and> pos m \<noteq> None" by simp
      qed
    qed
  qed
qed



lemma bucketsLoop_outcome:
  "bucketsLoop [sw, mid] k (alive1, nt) =
     (case (if sw \<noteq> [] then bucketOutcome sw alive1
            else if mid \<noteq> [] then bucketOutcome mid alive1 else (alive1, None)) of
        (a, entry) \<Rightarrow> (a, case entry of None \<Rightarrow> nt | Some e \<Rightarrow> nt[k := e]))"
  by (simp add: useBucket_outcome split: prod.splits)

lemma stepOutcome_Inl:
  assumes "cmdBests srt lim k t cmds 0 (alive, replicate (length cmds) []) = Inl e"
  shows "stepOutcome srt cmds lim k t alive = Inl e"
  using assms by (simp add: stepOutcome_def)

lemma written_update:
  assumes "length before = k"
  shows "(case entry of None \<Rightarrow> before @ (ty, False) # rest
          | Some e \<Rightarrow> (before @ (ty, False) # rest)[k := e]) =
         (before @ [written ty entry]) @ rest"
  by (cases entry) (simp_all add: written_def assms [symmetric])

text \<open>
  The loop over the tokens writes to \<open>newTokens\<close>, at each position, what the round of that
  position gives.
\<close>

lemma tokenLoop_written:
  assumes "length before = k" and "length typed = length toks"
  shows "map_sum id (\<lambda>(a, n, l). (a, n))
           (tokenLoop srt cmds lim sug toks k (alive, before @ map (\<lambda>t. (t, False)) typed, logged)) =
         map_sum id (\<lambda>(a, entries). (a, before @ map2 written typed entries))
           (runOutcomes srt cmds lim toks k alive)"
  using assms
proof (induction toks arbitrary: typed k alive before logged)
  case Nil
  then show ?case by simp
next
  case (Cons t toks)
  from Cons.prems(2) obtain ty typed' where typed: "typed = ty # typed'"
    "length typed' = length toks"
    by (cases typed) auto
  show ?case
  proof (cases "cmdBests srt lim k t cmds 0 (alive, replicate (length cmds) [])")
    case (Inl e)
    then show ?thesis
      by (simp add: tokenLoop_Cons stepOutcome_Inl del: tokenLoop.simps)
  next
    case (Inr res)
    obtain alive1 bests G where res: "res = (alive1, bests, G)" by (cases res)
    define sw where "sw = filter (\<lambda>m. pos m = Some 0) bests"
    define mid where "mid = filter (\<lambda>m. pos m \<noteq> Some 0 \<and> pos m \<noteq> None) bests"
    obtain alive' entry where out: "(if sw \<noteq> [] then bucketOutcome sw alive1
        else if mid \<noteq> [] then bucketOutcome mid alive1 else (alive1, None)) = (alive', entry)"
      by (cases "if sw \<noteq> [] then bucketOutcome sw alive1
        else if mid \<noteq> [] then bucketOutcome mid alive1 else (alive1, None)")
    have step: "stepOutcome srt cmds lim k t alive = Inr (alive', entry)"
      unfolding stepOutcome_eq [OF Inr [unfolded res]] sw_def [symmetric] mid_def [symmetric] out ..
    have nt: "before @ map (\<lambda>t. (t, False)) typed =
        before @ (ty, False) # map (\<lambda>t. (t, False)) typed'"
      by (simp add: typed)
    have loop: "bucketsLoop [sw, mid] k (alive1, before @ map (\<lambda>t. (t, False)) typed) =
        (alive', (before @ [written ty entry]) @ map (\<lambda>t. (t, False)) typed')"
      unfolding bucketsLoop_outcome out nt
      using written_update [OF Cons.prems(1), where entry = entry and ty = ty
          and rest = "map (\<lambda>t. (t, False)) typed'"]
      by simp
    have "length (before @ [written ty entry]) = Suc k"
      using Cons.prems(1) by simp
    note IH = Cons.IH [OF this typed(2), of alive']
    have "tokenLoop srt cmds lim sug (t # toks) k (alive, before @ map (\<lambda>t. (t, False)) typed, logged) =
        tokenLoop srt cmds lim sug toks (Suc k)
          (alive', (before @ [written ty entry]) @ map (\<lambda>t. (t, False)) typed',
           if sug then logged @ suggestions srt G sw mid else logged)"
      unfolding tokenLoop_Cons Inr res
      by (simp only: sum.case prod.case Let_def sw_def [symmetric] mid_def [symmetric] loop
          fst_conv snd_conv)
    then show ?thesis
      using IH [of "if sug then logged @ suggestions srt G sw mid else logged"] step
      by (simp add: typed split: sum.splits del: tokenLoop.simps)
  qed
qed

lemma runOutcomes_length:
  "runOutcomes srt cmds lim toks k alive = Inr (aliveF, entries) \<Longrightarrow> length entries = length toks"
  by (induction toks arbitrary: k alive entries) (auto split: sum.splits)

lemma completeTokens_written:
  "map_sum id (\<lambda>(a, n, l). (a, n)) (completeTokens srt cmds lim sug typed) =
   map_sum id (\<lambda>(a, entries). (a, map2 written typed entries))
     (runOutcomes srt cmds lim (map lower typed) 0 (replicate (length cmds) True))"
  unfolding completeTokens_def
  using tokenLoop_written [where before = "[]" and k = 0 and typed = typed
      and toks = "map lower typed" and srt = srt and cmds = cmds and lim = lim and sug = sug
      and alive = "replicate (length cmds) True" and logged = "[]"]
  by simp

lemma written_fst: "written (fst (written ty entry)) entry = written ty entry"
  by (cases entry) (simp_all add: written_def)

lemma token_again_refl: "token_again exact e e"
  by (simp add: token_again_def)

text \<open>
  When each token written is marked exhausted or is the token typed, the rounds on the
  tokens written leave the same commands alive and write the same tokens up to the case of
  their letters, with the same marks.
\<close>

lemma runOutcomes_again:
  assumes "std_sort_contract srt"
    and "aliases_fit_size_t cmds" and "exact \<longrightarrow> no_case_variants cmds"
  shows "runOutcomes srt cmds lim (map lower typed) k alive = Inr (aliveF, entries) \<Longrightarrow>
    \<forall>i < length typed. snd (written (typed ! i) (entries ! i)) \<or>
       fst (written (typed ! i) (entries ! i)) = typed ! i \<Longrightarrow>
    \<exists>entries2.
       runOutcomes srt cmds lim (map lower (map fst (map2 written typed entries))) k alive =
         Inr (aliveF, entries2) \<and>
       list_all2 (token_again exact) (map2 written typed entries)
         (map2 written (map fst (map2 written typed entries)) entries2)"
proof (induction typed arbitrary: k alive entries)
  case Nil
  then show ?case by simp
next
  case (Cons ty typed)
  from Cons.prems(1) obtain alive' entry rest where
    step: "stepOutcome srt cmds lim k (lower ty) alive = Inr (alive', entry)"
    and run: "runOutcomes srt cmds lim (map lower typed) (Suc k) alive' = Inr (aliveF, rest)"
    and entries: "entries = entry # rest"
    by (auto split: sum.splits)
  from Cons.prems(2) have here: "snd (written ty entry) \<or> fst (written ty entry) = ty"
    and there: "\<forall>i < length typed. snd (written (typed ! i) (rest ! i)) \<or>
           fst (written (typed ! i) (rest ! i)) = typed ! i"
    unfolding entries by auto
  have "\<exists>entry2. stepOutcome srt cmds lim k (lower (fst (written ty entry))) alive =
      Inr (alive', entry2) \<and>
      token_again exact (written ty entry) (written (fst (written ty entry)) entry2)"
  proof (cases "fst (written ty entry) = ty")
    case True
    with step have "stepOutcome srt cmds lim k (lower (fst (written ty entry))) alive =
        Inr (alive', entry)"
      by simp
    moreover have "token_again exact (written ty entry) (written (fst (written ty entry)) entry)"
      by (simp add: written_fst token_again_refl)
    ultimately show ?thesis by blast
  next
    case False
    with here obtain new where new: "entry = Some (new, True)"
      by (cases entry) (auto simp: written_def)
    from stepOutcome_exhausted [OF assms step [unfolded new]] obtain txt2 where
      "stepOutcome srt cmds lim k (lower new) alive = Inr (alive', Some (txt2, True))"
      "token_again exact (new, True) (txt2, True)"
      by blast
    then show ?thesis
      unfolding new by (auto simp: written_def)
  qed
  then obtain entry2 where
    step2: "stepOutcome srt cmds lim k (lower (fst (written ty entry))) alive =
      Inr (alive', entry2)"
    and same: "token_again exact (written ty entry) (written (fst (written ty entry)) entry2)"
    by blast
  from Cons.IH [OF run there] obtain rest2 where
    run2: "runOutcomes srt cmds lim (map lower (map fst (map2 written typed rest))) (Suc k)
      alive' = Inr (aliveF, rest2)"
    and rest: "list_all2 (token_again exact) (map2 written typed rest)
      (map2 written (map fst (map2 written typed rest)) rest2)"
    by blast
  from step2 run2 have
    "runOutcomes srt cmds lim (map lower (map fst (map2 written (ty # typed) entries))) k alive =
       Inr (aliveF, entry2 # rest2)"
    by (simp add: entries)
  moreover from same rest have "list_all2 (token_again exact) (map2 written (ty # typed) entries)
      (map2 written (map fst (map2 written (ty # typed) entries)) (entry2 # rest2))"
    by (simp add: entries)
  ultimately show ?case by blast
qed



lemma isspace_space: "isspace CHR '' ''"
  by (simp add: isspace_def)

lemma istream_words_word:
  "\<forall>c \<in> set t. \<not> isspace c \<Longrightarrow> istream_words cur (t @ rest) = istream_words (rev t @ cur) rest"
  by (induction t arbitrary: cur) simp_all

lemma istream_words_not_empty: "w \<in> set (istream_words cur s) \<Longrightarrow> w \<noteq> []"
  by (induction s arbitrary: cur) (auto split: if_splits)

lemma istream_tokens_not_empty: "w \<in> set (istream_tokens s) \<Longrightarrow> w \<noteq> []"
  unfolding istream_tokens_def by (rule istream_words_not_empty)

lemma istream_tokens_tokenConCat:
  assumes "\<forall>e \<in> set nt. fst e \<noteq> [] \<and> (\<forall>c \<in> set (fst e). \<not> isspace c)"
  shows "istream_tokens (tokenConCat nt sp) = map fst nt"
  using assms
proof (induction nt)
  case Nil
  show ?case by (simp add: istream_tokens_def)
next
  case (Cons e nt)
  obtain t f where e: "e = (t, f)" by (cases e)
  from Cons.prems e have t: "t \<noteq> []" "\<forall>c \<in> set t. \<not> isspace c"
    by simp_all
  from Cons have IH: "istream_words [] (tokenConCat nt sp) = map fst nt"
    by (simp add: istream_tokens_def)
  show ?case
  proof (cases "nt \<noteq> [] \<or> sp \<or> f")
    case True
    then have "istream_words [] (tokenConCat (e # nt) sp) =
        istream_words (rev t) (CHR '' '' # tokenConCat nt sp)"
      using istream_words_word [OF t(2), of "[]" "CHR '' '' # tokenConCat nt sp"]
      by (simp add: e)
    also have "\<dots> = t # istream_words [] (tokenConCat nt sp)"
      using t(1) by (simp add: isspace_space)
    finally show ?thesis
      by (simp add: istream_tokens_def IH e)
  next
    case False
    then have "istream_words [] (tokenConCat (e # nt) sp) = istream_words (rev t) []"
      using istream_words_word [OF t(2), of "[]" "[]"]
      by (simp add: e)
    with False t(1) show ?thesis
      by (simp add: istream_tokens_def e)
  qed
qed

lemma tokenConCat_not_empty:
  "nt \<noteq> [] \<Longrightarrow> \<forall>e \<in> set nt. fst e \<noteq> [] \<Longrightarrow> tokenConCat nt sp \<noteq> []"
  by (cases nt) auto

lemma tokenConCat_last:
  assumes "nt \<noteq> []"
    and "\<forall>e \<in> set nt. fst e \<noteq> [] \<and> (\<forall>c \<in> set (fst e). \<not> isspace c)"
  shows "isspace (last (tokenConCat nt sp)) = (sp \<or> snd (last nt))"
  using assms
proof (induction nt)
  case Nil
  then show ?case by simp
next
  case (Cons e nt)
  obtain t f where e: "e = (t, f)" by (cases e)
  from Cons.prems e have t: "t \<noteq> []" "\<forall>c \<in> set t. \<not> isspace c"
    by simp_all
  show ?case
  proof (cases "nt = []")
    case True
    from t have "\<not> isspace (last t)" by simp
    with True t(1) show ?thesis
      by (simp add: e isspace_space)
  next
    case False
    with Cons.prems have "tokenConCat nt sp \<noteq> []"
      by (intro tokenConCat_not_empty) simp_all
    with False Cons show ?thesis
      by (simp add: e)
  qed
qed

lemma tokenConCat_space:
  "nt \<noteq> [] \<Longrightarrow> tokenConCat nt (sp \<or> snd (last nt)) = tokenConCat nt sp"
proof (induction nt)
  case Nil
  then show ?case by simp
next
  case (Cons e nt)
  obtain t f where e: "e = (t, f)" by (cases e)
  show ?case
  proof (cases "nt = []")
    case True
    then show ?thesis by (auto simp: e)
  next
    case False
    with Cons show ?thesis by (simp add: e)
  qed
qed

lemma stepOutcome_not_empty:
  assumes "std_sort_contract srt"
    and "stepOutcome srt cmds lim k t alive = Inr (alive', Some (new, fl))"
  shows "new \<noteq> []"
proof -
  from assms(2) obtain alive1 bests G where
    bests: "cmdBests srt lim k t cmds 0 (alive, replicate (length cmds) []) = Inr (alive1, bests, G)"
    by (rule stepOutcome_Inr)
  define sw where "sw = filter (\<lambda>m. pos m = Some 0) bests"
  define mid where "mid = filter (\<lambda>m. pos m \<noteq> Some 0 \<and> pos m \<noteq> None) bests"
  from assms(2) have out: "(if sw \<noteq> [] then bucketOutcome sw alive1
      else if mid \<noteq> [] then bucketOutcome mid alive1 else (alive1, None)) =
      (alive', Some (new, fl))"
    unfolding stepOutcome_eq [OF bests] sw_def mid_def by (simp only: sum.inject)
  have len: "length (candidate (hd B)) = length (candidateLowered (hd B))"
    if "B \<noteq> []" "set B \<subseteq> set bests" for B
  proof -
    from that have "hd B \<in> set bests" by auto
    from cmdBests_form [OF assms(1) bests this] obtain i' j' a where
      "hd B = makeMatchInfo i' j' t a"
      by blast
    then show ?thesis by (simp add: makeMatchInfo_simps length_lower)
  qed
  show ?thesis
  proof (cases "sw \<noteq> []")
    case True
    with out have "bucketOutcome sw alive1 = (alive', Some (new, fl))" by simp
    moreover have "length (candidate (hd sw)) = length (candidateLowered (hd sw))"
      using True by (intro len) (auto simp: sw_def)
    ultimately show ?thesis by (rule bucketOutcome_not_empty)
  next
    case False
    with out have mid: "mid \<noteq> []" by (auto split: if_splits)
    with False out have "bucketOutcome mid alive1 = (alive', Some (new, fl))" by simp
    moreover have "length (candidate (hd mid)) = length (candidateLowered (hd mid))"
      using mid by (intro len) (auto simp: mid_def)
    ultimately show ?thesis by (rule bucketOutcome_not_empty)
  qed
qed

lemma runOutcomes_not_empty:
  assumes "std_sort_contract srt"
  shows "runOutcomes srt cmds lim toks k alive = Inr (aliveF, entries) \<Longrightarrow>
    Some (new, fl) \<in> set entries \<Longrightarrow> new \<noteq> []"
proof (induction toks arbitrary: k alive entries)
  case Nil
  then show ?case by simp
next
  case (Cons t toks)
  from Cons.prems(1) obtain alive' entry rest where
    step: "stepOutcome srt cmds lim k t alive = Inr (alive', entry)"
    and run: "runOutcomes srt cmds lim toks (Suc k) alive' = Inr (aliveF, rest)"
    and entries: "entries = entry # rest"
    by (auto split: sum.splits)
  from Cons.prems(2) entries consider "entry = Some (new, fl)" | "Some (new, fl) \<in> set rest"
    by auto
  then show ?case
  proof cases
    case 1
    with step show ?thesis by (auto dest: stepOutcome_not_empty [OF assms])
  next
    case 2
    from Cons.IH [OF run this] show ?thesis .
  qed
qed

lemma lower_append: "lower (a @ b) = lower a @ lower b"
  by (simp add: lower_def)

lemma lower_space: "lower '' '' = '' ''"
  by (simp add: lower_def tolower_def ascii_upper_lower_def)

lemma tokenConCat_again:
  "list_all2 (token_again exact) nt nt2 \<Longrightarrow>
   lower (tokenConCat nt2 sp) = lower (tokenConCat nt sp) \<and>
   (exact \<longrightarrow> tokenConCat nt2 sp = tokenConCat nt sp)"
proof (induction nt nt2 rule: list_all2_induct)
  case Nil
  show ?case by simp
next
  case (Cons e nt e2 nt2)
  obtain t f where e: "e = (t, f)" by (cases e)
  obtain t2 f2 where e2: "e2 = (t2, f2)" by (cases e2)
  from Cons.hyps(1) have same: "f2 = f" "lower t2 = lower t" "exact \<longrightarrow> t2 = t"
    by (simp_all add: token_again_def e e2)
  from Cons.hyps(2) have "nt2 = [] \<longleftrightarrow> nt = []"
    by (auto simp: list_all2_Nil list_all2_Nil2)
  with same Cons.IH show ?case
    by (simp add: e e2 lower_append lower_space)
qed



lemma completeTokens_Inr:
  assumes "completeTokens srt cmds lim sug typed = Inr (aliveF, newTokens, logged)"
  obtains entries where
    "runOutcomes srt cmds lim (map lower typed) 0 (replicate (length cmds) True) =
       Inr (aliveF, entries)"
    "newTokens = map2 written typed entries"
proof -
  from completeTokens_written [where srt = srt and cmds = cmds and lim = lim and sug = sug
      and typed = typed] assms
  have "map_sum id (\<lambda>(a, entries). (a, map2 written typed entries))
     (runOutcomes srt cmds lim (map lower typed) 0 (replicate (length cmds) True)) =
     Inr (aliveF, newTokens)"
    by simp
  then show ?thesis
    by (cases "runOutcomes srt cmds lim (map lower typed) 0 (replicate (length cmds) True)")
      (auto intro: that)
qed

lemma completeTokens_from_rounds:
  assumes "runOutcomes srt cmds lim (map lower typed) 0 (replicate (length cmds) True) =
       Inr (aliveF, entries)"
  shows "\<exists>logged. completeTokens srt cmds lim sug typed =
           Inr (aliveF, map2 written typed entries, logged)"
proof -
  from completeTokens_written [where srt = srt and cmds = cmds and lim = lim and sug = sug
      and typed = typed] assms
  have "map_sum id (\<lambda>(a, n, l). (a, n)) (completeTokens srt cmds lim sug typed) =
      Inr (aliveF, map2 written typed entries)"
    by simp
  then show ?thesis
    by (cases "completeTokens srt cmds lim sug typed") auto
qed

text \<open>
  Claim C6, as the code has it. Let the completion of a line write, at every position, a
  token that it marks exhausted or the very token typed there, and let no token written hold
  a whitespace character. Then the completion of the line written, with the same flags and
  the same results of the generators, returns that line up to the case of its letters; it
  returns that very line, character by character, when no alias group holds two different
  aliases that are equal up to the case of their letters. (Among such aliases the candidate
  is chosen by the order in which \<open>std::sort\<close> leaves elements that compare equal, and that
  order may change from one call to the next.) This holds for every sorting function that
  meets the contract of \<open>std::sort\<close>, for aliases of a size that a \<open>size_t\<close> holds.
\<close>

theorem autoComplete_again:
  assumes "std_sort_contract srt"
    and "aliases_fit_size_t cmds"
    and "completeTokens srt cmds lim sug (istream_tokens input) =
           Inr (aliveF, newTokens, logged)"
    and "\<forall>i < length newTokens.
           snd (newTokens ! i) \<or> fst (newTokens ! i) = istream_tokens input ! i"
    and "\<forall>e \<in> set newTokens. \<forall>c \<in> set (fst e). \<not> isspace c"
  shows "\<exists>line line2 logged2.
           autoComplete srt cmds input lim sug True = Inr (line, logged) \<and>
           autoComplete srt cmds line lim sug True = Inr (line2, logged2) \<and>
           lower line2 = lower line \<and>
           (no_case_variants cmds \<longrightarrow> line2 = line)"
proof (cases "istream_tokens input = []")
  case True
  with assms(3) have "logged = []"
    by (simp add: completeTokens_def)
  with True show ?thesis
    by (simp add: autoComplete_def)
next
  case False
  define typed where "typed = istream_tokens input"
  define sp where "sp = isspace (last input)"
  define line where "line = tokenConCat newTokens sp"
  define exact where "exact = no_case_variants cmds"
  from assms(3) obtain entries where
    run: "runOutcomes srt cmds lim (map lower typed) 0 (replicate (length cmds) True) =
       Inr (aliveF, entries)"
    and nt: "newTokens = map2 written typed entries"
    unfolding typed_def by (rule completeTokens_Inr)
  from runOutcomes_length [OF run] have len: "length entries = length typed"
    by simp
  then have nth: "newTokens ! i = written (typed ! i) (entries ! i)" if "i < length typed" for i
    using that by (simp add: nt)
  from len have len_nt: "length newTokens = length typed"
    by (simp add: nt)
  have marks: "\<forall>i < length typed. snd (written (typed ! i) (entries ! i)) \<or>
      fst (written (typed ! i) (entries ! i)) = typed ! i"
    using assms(4) nth len_nt by (simp add: typed_def)
  have "exact \<longrightarrow> no_case_variants cmds"
    by (simp add: exact_def)
  from runOutcomes_again [OF assms(1,2) this run marks] obtain entries2 where
    run2: "runOutcomes srt cmds lim (map lower (map fst newTokens)) 0
      (replicate (length cmds) True) = Inr (aliveF, entries2)"
    and same: "list_all2 (token_again exact) newTokens
      (map2 written (map fst newTokens) entries2)"
    unfolding nt by blast
  define newTokens2 where "newTokens2 = map2 written (map fst newTokens) entries2"
  from completeTokens_from_rounds [OF run2, of sug] obtain logged2 where
    second: "completeTokens srt cmds lim sug (map fst newTokens) =
      Inr (aliveF, newTokens2, logged2)"
    unfolding newTokens2_def by blast
  have not_empty: "fst e \<noteq> []" if "e \<in> set newTokens" for e
  proof -
    from that obtain i where i: "i < length typed" "e = written (typed ! i) (entries ! i)"
      using nth len_nt by (metis in_set_conv_nth)
    show ?thesis
    proof (cases "entries ! i")
      case None
      from i(1) have "typed ! i \<in> set (istream_tokens input)"
        by (simp add: typed_def)
      then have "typed ! i \<noteq> []"
        by (rule istream_tokens_not_empty)
      with None i(2) show ?thesis by (simp add: written_def)
    next
      case (Some w)
      obtain new fl where w: "w = (new, fl)" by (cases w)
      from i(1) len Some w have "Some (new, fl) \<in> set entries"
        by (metis nth_mem)
      from runOutcomes_not_empty [OF assms(1) run this] Some w i(2) show ?thesis
        by (simp add: written_def)
    qed
  qed
  with assms(5) have tokens_ok:
    "\<forall>e \<in> set newTokens. fst e \<noteq> [] \<and> (\<forall>c \<in> set (fst e). \<not> isspace c)"
    by blast
  from False len_nt have ne: "newTokens \<noteq> []"
    by (auto simp: typed_def)
  have first: "autoComplete srt cmds input lim sug True = Inr (line, logged)"
    using False assms(3) by (simp add: autoComplete_def line_def sp_def)
  have tokens: "istream_tokens line = map fst newTokens"
    unfolding line_def using tokens_ok by (rule istream_tokens_tokenConCat)
  have "isspace (last line) = (sp \<or> snd (last newTokens))"
    unfolding line_def using ne tokens_ok by (rule tokenConCat_last)
  then have line_again: "tokenConCat newTokens (isspace (last line)) = line"
    using tokenConCat_space [OF ne, of sp] by (simp add: line_def)
  define line2 where "line2 = tokenConCat newTokens2 (isspace (last line))"
  from tokens ne second have "autoComplete srt cmds line lim sug True = Inr (line2, logged2)"
    by (simp add: autoComplete_def line2_def)
  moreover from tokenConCat_again [OF same [folded newTokens2_def], of "isspace (last line)"]
  have "lower line2 = lower line" "no_case_variants cmds \<longrightarrow> line2 = line"
    unfolding line2_def line_again exact_def by simp_all
  ultimately show ?thesis
    using first by blast
qed



lemmas completion_defs =
  autoComplete_def istream_tokens_def isspace_def completeTokens_def lower_def tolower_def
  ascii_upper_lower_def insertion_sort_def makeMatchInfo_def MatchInfo_compare_def
  size_t_less_def size_t_sub_def useBucket_def Let_def

text \<open>
  "lo ga" is completed to "load game ", both tokens exhausted, and "load game " is completed
  to itself.
\<close>

theorem autoComplete_again_witness:
  "std_sort_contract insertion_sort \<and> aliases_fit_size_t sample_commands \<and>
   no_case_variants sample_commands \<and>
   completeTokens insertion_sort sample_commands False False (istream_tokens ''lo ga'') =
     Inr ([False, True, False], [(''load'', True), (''game'', True)], []) \<and>
   autoComplete insertion_sort sample_commands ''lo ga'' False False True =
     Inr (''load game '', []) \<and>
   (\<exists>logged2. autoComplete insertion_sort sample_commands ''load game '' False False True =
      Inr (''load game '', logged2))"
proof -
  have groups: "alias_groups sample_commands =
      {[''list''], [''load'', ''ld''], [''game''], [''level''], [''ld'']}"
    by (auto simp: alias_groups_def sample_commands_def)
  have sizes: "aliases_fit_size_t sample_commands"
    unfolding aliases_fit_size_t_def groups by (simp add: fits_size_t_def)
  have variants: "no_case_variants sample_commands"
    unfolding no_case_variants_def groups
    by (simp add: lower_def tolower_def ascii_upper_lower_def)
  have tokens: "istream_tokens ''lo ga'' = [''lo'', ''ga'']"
    by (simp add: istream_tokens_def isspace_def)
  have run: "completeTokens insertion_sort sample_commands False False
      (istream_tokens ''lo ga'') =
     Inr ([False, True, False], [(''load'', True), (''game'', True)], [])"
    unfolding tokens by (simp add: sample_commands_def completion_defs)
  have exhausted: "\<forall>i < length [(''load'', True), (''game'', True)].
      snd ([(''load'', True), (''game'', True)] ! i) \<or>
      fst ([(''load'', True), (''game'', True)] ! i) = istream_tokens ''lo ga'' ! i"
    by (auto simp: less_Suc_eq)
  have words: "\<forall>e \<in> set [(''load'', True), (''game'', True)]. \<forall>c \<in> set (fst e). \<not> isspace c"
    by (simp add: isspace_def)
  have first: "autoComplete insertion_sort sample_commands ''lo ga'' False False True =
      Inr (''load game '', [])"
    using run by (simp add: autoComplete_def tokens isspace_def)
  from autoComplete_again [OF insertion_sort_contract sizes run exhausted words] variants
  obtain line line2 logged2 where
    "autoComplete insertion_sort sample_commands ''lo ga'' False False True = Inr (line, [])"
    "autoComplete insertion_sort sample_commands line False False True = Inr (line2, logged2)"
    "line2 = line"
    by blast
  with first have "autoComplete insertion_sort sample_commands ''load game '' False False True =
      Inr (''load game '', logged2)"
    by simp
  with insertion_sort_contract sizes variants run first show ?thesis
    by blast
qed

text \<open>
  With an alias that holds a space, "a" is completed to "a b ", its one token exhausted, and
  "a b " is completed to "a b b ". The one group holds one alias, so that sorting leaves
  nothing open.
\<close>

theorem autoComplete_again_counterexample:
  "completeTokens insertion_sort spaced_commands False False (istream_tokens ''a'') =
     Inr ([True], [(''a b'', True)], []) \<and>
   autoComplete insertion_sort spaced_commands ''a'' False False True = Inr (''a b '', []) \<and>
   autoComplete insertion_sort spaced_commands ''a b '' False False True = Inr (''a b b '', [])"
  by (simp add: spaced_commands_def completion_defs)

end
